theory Spec2Isabelle
  imports Main "HOL-Library.Word"
begin

section \<open>Python strings and byte strings\<close>

text \<open>
  The program is \<^verbatim>\<open>skills/git-commit-auto/scripts/suggest_commit_message.py\<close>.
  A Python \<^verbatim>\<open>str\<close> is a sequence of Unicode code points and \<^verbatim>\<open>len\<close> counts code
  points, so a \<^verbatim>\<open>str\<close> is modelled as a list of code points (natural numbers) and
  not as a \<open>char list\<close>, whose elements are bytes. A \<^verbatim>\<open>bytes\<close> value is a list of
  8-bit words. ASCII literals of the source are written \<open>asc ''...''\<close>; the Chinese
  literals are written as their code points, with the source text in a comment.
\<close>

type_synonym ustr = "nat list"
type_synonym bytes = "8 word list"

definition asc :: "string \<Rightarrow> ustr" where
  "asc s = map of_char s"

definition NUL :: "8 word" where "NUL = 0"
definition slash :: nat where "slash = 47"
definition newline :: nat where "newline = 10"

text \<open>\<^verbatim>\<open>s.startswith(pre)\<close>, \<^verbatim>\<open>s.endswith(suf)\<close> and \<^verbatim>\<open>needle in hay\<close>.\<close>

definition startswith :: "'a list \<Rightarrow> 'a list \<Rightarrow> bool" where
  "startswith s pre = (take (length pre) s = pre)"

definition endswith :: "'a list \<Rightarrow> 'a list \<Rightarrow> bool" where
  "endswith s suf = (length suf \<le> length s \<and> drop (length s - length suf) s = suf)"

fun contains :: "'a list \<Rightarrow> 'a list \<Rightarrow> bool" where
  "contains needle [] = (needle = [])"
| "contains needle (c # cs) = (startswith (c # cs) needle \<or> contains needle cs)"

text \<open>
  \<^verbatim>\<open>s.split(sep)\<close> for a one-element separator: the parts between the separators, in
  order; a string without separator (also the empty one) is a single part.
\<close>

fun split_on :: "'a \<Rightarrow> 'a list \<Rightarrow> 'a list list" where
  "split_on sep [] = [[]]"
| "split_on sep (c # cs) =
     (if c = sep then [] # split_on sep cs
      else (case split_on sep cs of
              [] \<Rightarrow> [[c]]
            | p # ps \<Rightarrow> (c # p) # ps))"

text \<open>
  \<^verbatim>\<open>b.decode("utf-8", errors="replace")\<close>. The decoder reads one scalar value at a
  time; an ill-formed or truncated sequence yields one U+FFFD for its longest valid
  prefix (at least one byte) and decoding resumes right after that prefix.
\<close>

definition replacement_char :: nat where "replacement_char = 65533"

definition is_continuation :: "nat \<Rightarrow> bool" where
  "is_continuation b = (128 \<le> b \<and> b < 192)"

text \<open>The second byte of a three- or four-byte sequence is restricted by the lead byte
  (no overlong forms, no surrogates, nothing above U+10FFFF).\<close>

definition second_ok :: "nat \<Rightarrow> nat \<Rightarrow> bool" where
  "second_ok lead b =
     (is_continuation b \<and>
      \<not> (lead = 224 \<and> b < 160) \<and> \<not> (lead = 237 \<and> 160 \<le> b) \<and>
      \<not> (lead = 240 \<and> b < 144) \<and> \<not> (lead = 244 \<and> 144 \<le> b))"

fun utf8_decode_nat :: "nat list \<Rightarrow> ustr" where
  "utf8_decode_nat [] = []"
| "utf8_decode_nat (b # bs) =
     (if b < 128 then b # utf8_decode_nat bs
      else if b < 194 then replacement_char # utf8_decode_nat bs
      else if b < 224 then
        (case bs of
           [] \<Rightarrow> [replacement_char]
         | b1 # r1 \<Rightarrow>
             if is_continuation b1
             then ((b - 192) * 64 + (b1 - 128)) # utf8_decode_nat r1
             else replacement_char # utf8_decode_nat bs)
      else if b < 240 then
        (case bs of
           [] \<Rightarrow> [replacement_char]
         | b1 # r1 \<Rightarrow>
             if \<not> second_ok b b1 then replacement_char # utf8_decode_nat bs
             else (case r1 of
                     [] \<Rightarrow> [replacement_char]
                   | b2 # r2 \<Rightarrow>
                       if is_continuation b2
                       then ((b - 224) * 4096 + (b1 - 128) * 64 + (b2 - 128))
                            # utf8_decode_nat r2
                       else replacement_char # utf8_decode_nat r1))
      else if b < 245 then
        (case bs of
           [] \<Rightarrow> [replacement_char]
         | b1 # r1 \<Rightarrow>
             if \<not> second_ok b b1 then replacement_char # utf8_decode_nat bs
             else (case r1 of
                     [] \<Rightarrow> [replacement_char]
                   | b2 # r2 \<Rightarrow>
                       if \<not> is_continuation b2 then replacement_char # utf8_decode_nat r1
                       else (case r2 of
                               [] \<Rightarrow> [replacement_char]
                             | b3 # r3 \<Rightarrow>
                                 if is_continuation b3
                                 then ((b - 240) * 262144 + (b1 - 128) * 4096
                                       + (b2 - 128) * 64 + (b3 - 128))
                                      # utf8_decode_nat r3
                                 else replacement_char # utf8_decode_nat r2)))
      else replacement_char # utf8_decode_nat bs)"

definition utf8_decode :: "bytes \<Rightarrow> ustr" where
  "utf8_decode data = utf8_decode_nat (map unat data)"

section \<open>The change-set reader\<close>

text \<open>
  \<^verbatim>\<open>
  def _parse_z_pairs(data: bytes) -> List[str]:
      if not data:
          return []
      parts = data.split(b"\x00")
      if parts and parts[-1] == b"":
          parts = parts[:-1]
      return [p.decode("utf-8", errors="replace") for p in parts]
  \<close>
\<close>

definition parse_z_pairs :: "bytes \<Rightarrow> ustr list" where
  "parse_z_pairs data =
     (if data = [] then []
      else let parts = split_on NUL data;
               parts = (if parts \<noteq> [] \<and> last parts = [] then butlast parts else parts)
           in map utf8_decode parts)"

record ChangedFile =
  status :: ustr
  path :: ustr

text \<open>
  What the program can raise: \<^verbatim>\<open>RuntimeError(msg)\<close>, the
  \<^verbatim>\<open>subprocess.CalledProcessError\<close> of a failing git call (carrying its text),
  \<^verbatim>\<open>IndexError\<close> for a list index out of range, and \<^verbatim>\<open>SystemExit(code)\<close> from
  \<^verbatim>\<open>sys.exit\<close>.
\<close>

datatype py_exception =
    RuntimeError ustr
  | CalledProcessError ustr
  | IndexError
  | SystemExit int

definition py_index :: "'a list \<Rightarrow> nat \<Rightarrow> py_exception + 'a" where
  "py_index xs i = (if i < length xs then Inr (xs ! i) else Inl IndexError)"

text \<open>
  The loop of \<^verbatim>\<open>_list_changed_files\<close> over the decoded fields, with the cursor
  \<open>i\<close> and the list \<open>changed\<close> built so far:
  \<^verbatim>\<open>
      while i < len(parts):
          status = parts[i]
          if not status:
              i += 1
              continue
          if status.startswith("R") or status.startswith("C"):
              if i + 2 >= len(parts):
                  break
              new_path = parts[i + 2]
              changed.append(ChangedFile(status=status[:1], path=new_path))
              i += 3
              continue
          if i + 1 >= len(parts):
              break
          changed.append(ChangedFile(status=status[:1], path=parts[i + 1]))
          i += 2
      return changed
  \<close>
\<close>

function list_changed_files_loop ::
  "ustr list \<Rightarrow> nat \<Rightarrow> ChangedFile list \<Rightarrow> py_exception + ChangedFile list" where
  "list_changed_files_loop parts i changed =
     (if i < length parts then
        (case py_index parts i of
           Inl e \<Rightarrow> Inl e
         | Inr st \<Rightarrow>
             if st = [] then list_changed_files_loop parts (i + 1) changed
             else if startswith st (asc ''R'') \<or> startswith st (asc ''C'') then
               (if i + 2 \<ge> length parts then Inr changed
                else (case py_index parts (i + 2) of
                        Inl e \<Rightarrow> Inl e
                      | Inr new_path \<Rightarrow>
                          list_changed_files_loop parts (i + 3)
                            (changed @ [\<lparr>status = take 1 st, path = new_path\<rparr>])))
             else if i + 1 \<ge> length parts then Inr changed
             else (case py_index parts (i + 1) of
                     Inl e \<Rightarrow> Inl e
                   | Inr p \<Rightarrow>
                       list_changed_files_loop parts (i + 2)
                         (changed @ [\<lparr>status = take 1 st, path = p\<rparr>])))
      else Inr changed)"
  by pat_completeness auto
termination
  by (relation "measure (\<lambda>(parts, i, changed). length parts - i)") auto

text \<open>
  The outside world of one run: what each git call answers. A call made with
  \<^verbatim>\<open>subprocess.check_output\<close> either returns the bytes git wrote or raises
  \<^verbatim>\<open>CalledProcessError\<close>; \<^verbatim>\<open>_git_try\<close> returns the exit code with the output.
  The calls that take \<^verbatim>\<open>repo_root\<close> receive it here too. What the program prints is
  a list of items: the JSON object of subject and body, a line of text, or the traceback
  of an exception that nothing caught. \<open>stdout_accepts\<close> says whether the standard
  output can encode an item; \<^verbatim>\<open>print\<close> raises \<^verbatim>\<open>UnicodeEncodeError\<close> on one it
  cannot. (The error stream escapes what it cannot encode and accepts every text.)
\<close>

datatype printed = JsonObject ustr ustr | Line ustr | Traceback

record git_env =
  git_rev_parse :: "int \<times> bytes"
  git_diff_name_status :: "ustr \<Rightarrow> bool \<Rightarrow> py_exception + bytes"
  git_ls_untracked :: "ustr \<Rightarrow> py_exception + bytes"
  git_diff_shortstat :: "ustr \<Rightarrow> bool \<Rightarrow> py_exception + bytes"
  stdout_accepts :: "printed \<Rightarrow> bool"

definition list_changed_files ::
  "git_env \<Rightarrow> ustr \<Rightarrow> bool \<Rightarrow> py_exception + ChangedFile list" where
  "list_changed_files env repo_root cached =
     (case git_diff_name_status env repo_root cached of
        Inl e \<Rightarrow> Inl e
      | Inr raw \<Rightarrow> list_changed_files_loop (parse_z_pairs raw) 0 [])"

definition list_untracked_files :: "git_env \<Rightarrow> ustr \<Rightarrow> py_exception + ChangedFile list" where
  "list_untracked_files env repo_root =
     (case git_ls_untracked env repo_root of
        Inl e \<Rightarrow> Inl e
      | Inr raw \<Rightarrow> Inr (map (\<lambda>p. \<lparr>status = asc ''A'', path = p\<rparr>) (parse_z_pairs raw)))"

section \<open>The classifiers\<close>

subsection \<open>Dominant area\<close>

text \<open>
  A \<^verbatim>\<open>dict\<close> keeps its keys in insertion order, and \<^verbatim>\<open>max\<close> returns the first
  maximal item of the iteration, so the score tables are association lists in insertion
  order. \<open>add_score k w\<close> is \<^verbatim>\<open>d[k] = d.get(k, 0) + w\<close>: an existing key keeps its
  place, a new key goes to the end. \<open>max_from\<close> is the scan of
  \<^verbatim>\<open>max(d.items(), key=lambda kv: kv[1])\<close> on a non-empty table: the best item so
  far is replaced only by a strictly greater one.
\<close>

fun add_score :: "'k \<Rightarrow> nat \<Rightarrow> ('k \<times> nat) list \<Rightarrow> ('k \<times> nat) list" where
  "add_score k w [] = [(k, w)]"
| "add_score k w ((k', v) # rest) =
     (if k' = k then (k', v + w) # rest else (k', v) # add_score k w rest)"

fun max_from :: "('k \<times> nat) \<Rightarrow> ('k \<times> nat) list \<Rightarrow> ('k \<times> nat)" where
  "max_from best [] = best"
| "max_from best (kv # rest) = max_from (if snd best < snd kv then kv else best) rest"

text \<open>\<^verbatim>\<open>p.split("/", 1)[0] if "/" in p else p\<close>\<close>

definition top_segment :: "ustr \<Rightarrow> ustr" where
  "top_segment p = (if slash \<in> set p then takeWhile (\<lambda>c. c \<noteq> slash) p else p)"

definition tally :: "ustr list \<Rightarrow> (ustr \<times> nat) list" where
  "tally paths = fold (\<lambda>p counts. add_score (top_segment p) 1 counts) paths []"

definition generic_area :: ustr where
  "generic_area = [39033, 30446]"  \<comment> \<open>U+9879 U+76EE (project)\<close>

definition area_mapping :: "(ustr \<times> ustr) list" where
  "area_mapping =
     [(asc ''mobile-app'', [31227, 21160, 31471]),  \<comment> \<open>U+79FB U+52A8 U+7AEF (mobile)\<close>
      (asc ''backend'', [21518, 31471]),  \<comment> \<open>U+540E U+7AEF (backend)\<close>
      (asc ''docs'', [25991, 26723])]"  \<comment> \<open>U+6587 U+6863 (documentation)\<close>

definition display_name :: "ustr \<Rightarrow> ustr" where
  "display_name seg = (case map_of area_mapping seg of None \<Rightarrow> generic_area | Some v \<Rightarrow> v)"

definition dominant_area :: "ustr list \<Rightarrow> ustr" where
  "dominant_area paths =
     (case tally paths of
        [] \<Rightarrow> generic_area
      | kv # rest \<Rightarrow> display_name (fst (max_from kv rest)))"

subsection \<open>Commit type\<close>

text \<open>
  \<^verbatim>\<open>str.lower()\<close>, exact in the ASCII code points of its result: the letters
  \<^verbatim>\<open>A\<close> to \<^verbatim>\<open>Z\<close> become \<^verbatim>\<open>a\<close> to \<^verbatim>\<open>z\<close>, U+0130 becomes \<^verbatim>\<open>i\<close> followed by
  U+0307, U+212A becomes \<^verbatim>\<open>k\<close>, and no other code point yields an ASCII one. A code
  point outside ASCII other than these two is kept as it is, where \<^verbatim>\<open>str.lower()\<close>
  may give other code points outside ASCII. The program looks only for ASCII texts in a
  lower-cased path (\<^verbatim>\<open>endswith(".md")\<close>, \<^verbatim>\<open>"about" in p\<close>, the keywords), and such a
  test does not depend on which code points outside ASCII the string holds.
\<close>

definition lower_cp :: "nat \<Rightarrow> ustr" where
  "lower_cp c =
     (if 65 \<le> c \<and> c \<le> 90 then [c + 32]
      else if c = 304 then [105, 775]
      else if c = 8490 then [107]
      else [c])"

definition py_lower :: "ustr \<Rightarrow> ustr" where
  "py_lower s = concat (map lower_cp s)"

definition is_docs_only :: "ustr list \<Rightarrow> bool" where
  "is_docs_only paths =
     (paths \<noteq> [] \<and>
      list_all (\<lambda>p. startswith p (asc ''docs/'') \<or> endswith (py_lower p) (asc ''.md'')) paths)"

text \<open>
  The four patterns of \<^verbatim>\<open>_is_test_only\<close>, each used with \<^verbatim>\<open>re.search\<close>:
  \<^verbatim>\<open>_test\.go$\<close>, \<^verbatim>\<open>\.(spec|test)\.(ts|tsx|js|jsx)$\<close>, \<^verbatim>\<open>(^|/)__tests__(/|$)\<close>
  and \<^verbatim>\<open>(^|/)tests?(/|$)\<close>. Without the MULTILINE flag \<^verbatim>\<open>^\<close> matches at the start
  of the string only, and \<^verbatim>\<open>$\<close> at its end or just before a newline that ends it.
\<close>

definition at_dollar :: "ustr \<Rightarrow> bool" where
  "at_dollar r = (r = [] \<or> r = [newline])"

definition ends_dollar :: "ustr \<Rightarrow> ustr \<Rightarrow> bool" where
  "ends_dollar s suf = (endswith s suf \<or> endswith s (suf @ [newline]))"

definition dir_here :: "ustr \<Rightarrow> ustr \<Rightarrow> bool" where
  "dir_here word s =
     (startswith s word \<and>
      (let r = drop (length word) s in startswith r [slash] \<or> at_dollar r))"

text \<open>\<open>dir_search word b s\<close>: the pattern \<^verbatim>\<open>(^|/)word(/|$)\<close> matches somewhere in the
  rest \<open>s\<close> of the string, where \<open>b\<close> says that \<open>s\<close> starts the string or follows a
  slash.\<close>

fun dir_search :: "ustr \<Rightarrow> bool \<Rightarrow> ustr \<Rightarrow> bool" where
  "dir_search word b [] = (b \<and> dir_here word [])"
| "dir_search word b (c # cs) = ((b \<and> dir_here word (c # cs)) \<or> dir_search word (c = slash) cs)"

definition test_patterns :: "(ustr \<Rightarrow> bool) list" where
  "test_patterns =
     [\<lambda>p. ends_dollar p (asc ''_test.go''),
      \<lambda>p. list_ex (\<lambda>suf. ends_dollar p suf)
             [asc ''.'' @ a @ asc ''.'' @ b.
                a \<leftarrow> [asc ''spec'', asc ''test''],
                b \<leftarrow> [asc ''ts'', asc ''tsx'', asc ''js'', asc ''jsx'']],
      \<lambda>p. dir_search (asc ''__tests__'') True p,
      \<lambda>p. dir_search (asc ''test'') True p \<or> dir_search (asc ''tests'') True p]"

definition is_test_only :: "ustr list \<Rightarrow> bool" where
  "is_test_only paths =
     (paths \<noteq> [] \<and> list_all (\<lambda>p. list_ex (\<lambda>r. r p) test_patterns) paths)"

definition allow :: "ustr list" where
  "allow =
     [asc ''package.json'', asc ''package-lock.json'', asc ''yarn.lock'',
      asc ''pnpm-lock.yaml'', asc ''go.mod'', asc ''go.sum'', asc ''tsconfig.json'',
      asc ''app.json'', asc ''app.config.js'', asc ''app.config.ts'',
      asc ''.gitignore'', asc ''.gitattributes'']"

definition is_chore_only :: "ustr list \<Rightarrow> bool" where
  "is_chore_only paths =
     (paths \<noteq> [] \<and>
      list_all (\<lambda>p.
         let base = last (split_on slash p) in
           base \<in> set allow
           \<or> startswith p (asc ''.github/'')
           \<or> startswith p (asc ''.vscode/'')
           \<or> ((endswith base (asc ''.yml'') \<or> endswith base (asc ''.yaml''))
               \<and> (contains (asc ''eslint'') base \<or> contains (asc ''prettier'') base))) paths)"

definition defect_keywords :: "ustr list" where
  "defect_keywords =
     [[20462, 22797],  \<comment> \<open>U+4FEE U+590D (fix)\<close>
      asc ''bug'',
      [23849, 28291],  \<comment> \<open>U+5D29 U+6E83 (crash)\<close>
      [24322, 24120],  \<comment> \<open>U+5F02 U+5E38 (exception)\<close>
      [38169, 35823]]"  \<comment> \<open>U+9519 U+8BEF (error)\<close>

text \<open>
  \<^verbatim>\<open>user_hint and any(k in user_hint for k in [...])\<close>: the hint is given, is not the
  empty string, and contains one of the keywords.
\<close>

definition hint_names_defect :: "ustr option \<Rightarrow> bool" where
  "hint_names_defect user_hint =
     (case user_hint of
        None \<Rightarrow> False
      | Some h \<Rightarrow> h \<noteq> [] \<and> list_ex (\<lambda>k. contains k h) defect_keywords)"

definition infer_type :: "ustr list \<Rightarrow> ustr option \<Rightarrow> ustr" where
  "infer_type paths user_hint =
     (if hint_names_defect user_hint then asc ''fix''
      else if is_docs_only paths then asc ''docs''
      else if is_test_only paths then asc ''test''
      else if is_chore_only paths then asc ''chore''
      else asc ''feat'')"

subsection \<open>Subject object\<close>

definition label_about :: ustr where
  "label_about = [20851, 20110, 25105, 20204]"  \<comment> \<open>U+5173 U+4E8E U+6211 U+4EEC (about us)\<close>

definition label_privacy :: ustr where
  "label_privacy = [38544, 31169, 25919, 31574]"  \<comment> \<open>U+9690 U+79C1 U+653F U+7B56 (privacy policy)\<close>

definition label_login :: ustr where
  "label_login = [30331, 24405]"  \<comment> \<open>U+767B U+5F55 (log in)\<close>

definition label_auth :: ustr where
  "label_auth = [35748, 35777]"  \<comment> \<open>U+8BA4 U+8BC1 (authentication)\<close>

text \<open>The list \<^verbatim>\<open>keywords\<close> of \<^verbatim>\<open>_infer_object\<close>, in its order.\<close>

definition keyword_table :: "(ustr \<times> ustr) list" where
  "keyword_table =
     [(asc ''about'', label_about),
      (asc ''privacy'', label_privacy),
      (asc ''register'', [27880, 20876]),  \<comment> \<open>U+6CE8 U+518C (register)\<close>
      (asc ''signup'', [27880, 20876]),
      (asc ''login'', label_login),
      (asc ''auth'', label_auth),
      (asc ''profile'', [20010, 20154, 20013, 24515]),  \<comment> \<open>U+4E2A U+4EBA U+4E2D U+5FC3 (profile)\<close>
      (asc ''account'', [36134, 21495]),  \<comment> \<open>U+8D26 U+53F7 (account)\<close>
      (asc ''search'', [25628, 32034]),  \<comment> \<open>U+641C U+7D22 (search)\<close>
      (asc ''player'', [25773, 25918, 22120]),  \<comment> \<open>U+64AD U+653E U+5668 (player)\<close>
      (asc ''history'', [21382, 21490]),  \<comment> \<open>U+5386 U+53F2 (history)\<close>
      (asc ''download'', [19979, 36733]),  \<comment> \<open>U+4E0B U+8F7D (download)\<close>
      (asc ''cache'', [32531, 23384]),  \<comment> \<open>U+7F13 U+5B58 (cache)\<close>
      (asc ''toast'', asc ''Toast''),
      (asc ''supabase'', asc ''Supabase''),
      (asc ''api'', [25509, 21475]),  \<comment> \<open>U+63A5 U+53E3 (interface)\<close>
      (asc ''route'', [36335, 30001]),  \<comment> \<open>U+8DEF U+7531 (route)\<close>
      (asc ''layout'', [24067, 23616])]"  \<comment> \<open>U+5E03 U+5C40 (layout)\<close>

text \<open>The first loop of \<^verbatim>\<open>_infer_object\<close>: the first file, in order, that is added
  and has one of the two markers in its lower-cased path decides.\<close>

fun priority_phase :: "ChangedFile list \<Rightarrow> ustr option" where
  "priority_phase [] = None"
| "priority_phase (c # cs) =
     (let p = py_lower (path c) in
        if status c = asc ''A'' \<and> contains (asc ''about'') p then Some label_about
        else if status c = asc ''A'' \<and> contains (asc ''privacy'') p then Some label_privacy
        else priority_phase cs)"

text \<open>\<^verbatim>\<open>weight = 3 if status == "A" else 1\<close>\<close>

definition weight_of :: "ustr \<Rightarrow> nat" where
  "weight_of st = (if st = asc ''A'' then 3 else 1)"

text \<open>
  The scoring loops of \<^verbatim>\<open>_infer_object\<close>, over the pairs of lower-cased path and
  status:
  \<^verbatim>\<open>
      score: dict[str, int] = {}
      lower_items = [(c.path.lower(), c.status) for c in changed]
      for needle, zh in keywords:
          for path, status in lower_items:
              if needle in path:
                  weight = 3 if status == "A" else 1
                  score[zh] = score.get(zh, 0) + weight
  \<close>
\<close>

definition score_items :: "(ustr \<times> ustr) list \<Rightarrow> (ustr \<times> nat) list" where
  "score_items lower_items =
     fold (\<lambda>(needle, zh) score.
             fold (\<lambda>(p, st) score.
                     if contains needle p then add_score zh (weight_of st) score else score)
                  lower_items score)
          keyword_table []"

definition keyword_scores :: "ChangedFile list \<Rightarrow> (ustr \<times> nat) list" where
  "keyword_scores changed = score_items (map (\<lambda>c. (py_lower (path c), status c)) changed)"

definition infer_object :: "ChangedFile list \<Rightarrow> ustr option" where
  "infer_object changed =
     (case priority_phase changed of
        Some l \<Rightarrow> Some l
      | None \<Rightarrow>
          (case keyword_scores changed of
             [] \<Rightarrow> None
           | kv # rest \<Rightarrow> Some (fst (max_from kv rest))))"

subsection \<open>Action\<close>

definition action_added :: ustr where
  "action_added = [26032, 22686]"  \<comment> \<open>U+65B0 U+589E (add)\<close>

definition action_removed :: ustr where
  "action_removed = [31227, 38500]"  \<comment> \<open>U+79FB U+9664 (remove)\<close>

definition action_updated :: ustr where
  "action_updated = [26356, 26032]"  \<comment> \<open>U+66F4 U+65B0 (update)\<close>

definition infer_action :: "ustr list \<Rightarrow> ustr" where
  "infer_action statuses =
     (if list_ex (\<lambda>s. s = asc ''A'') statuses then action_added
      else if list_ex (\<lambda>s. s = asc ''D'') statuses then action_removed
      else action_updated)"

section \<open>The renderer\<close>

text \<open>
  \<^verbatim>\<open>str.strip()\<close> removes the leading and trailing code points that
  \<^verbatim>\<open>str.isspace\<close> accepts.
\<close>

definition is_space :: "nat \<Rightarrow> bool" where
  "is_space c =
     ((9 \<le> c \<and> c \<le> 13) \<or> (28 \<le> c \<and> c \<le> 32) \<or> c = 133 \<or> c = 160 \<or> c = 5760
      \<or> (8192 \<le> c \<and> c \<le> 8202) \<or> c = 8232 \<or> c = 8233 \<or> c = 8239 \<or> c = 8287
      \<or> c = 12288)"

definition py_strip :: "ustr \<Rightarrow> ustr" where
  "py_strip s = rev (dropWhile is_space (rev (dropWhile is_space s)))"

text \<open>
  \<^verbatim>\<open>s.replace(old, new)\<close>: the occurrences of \<open>old\<close> are found from the left and do
  not overlap. (For an empty \<open>old\<close>, Python puts \<open>new\<close> before every code point and
  at the end.)
\<close>

function py_replace :: "ustr \<Rightarrow> ustr \<Rightarrow> ustr \<Rightarrow> ustr" where
  "py_replace old new s =
     (if old = [] then new @ concat (map (\<lambda>c. c # new) s)
      else if s = [] then []
      else if startswith s old then new @ py_replace old new (drop (length old) s)
      else hd s # py_replace old new (tl s))"
  by pat_completeness auto
termination
  by (relation "measure (\<lambda>(old, new, s). length s)") auto

text \<open>\<^verbatim>\<open>s[:limit]\<close>; a negative \<open>limit\<close> counts from the end.\<close>

definition slice_to :: "'a list \<Rightarrow> int \<Rightarrow> 'a list" where
  "slice_to s limit =
     (if 0 \<le> limit then take (nat limit) s else take (nat (int (length s) + limit)) s)"

definition suffix_feature :: ustr where
  "suffix_feature = [21151, 33021]"  \<comment> \<open>U+529F U+80FD (feature)\<close>

definition suffix_page :: ustr where
  "suffix_page = [39029, 38754]"  \<comment> \<open>U+9875 U+9762 (page)\<close>

definition suffix_docs :: ustr where
  "suffix_docs = [25991, 26723]"  \<comment> \<open>U+6587 U+6863 (documentation)\<close>

definition suffix_changes :: ustr where
  "suffix_changes = [21464, 26356]"  \<comment> \<open>U+53D8 U+66F4 (changes)\<close>

text \<open>
  \<^verbatim>\<open>
  def _compact_subject(prefix: str, summary: str, limit: int = 50) -> str:
      subject = f"{prefix}: {summary}".strip()
      if len(subject) <= limit:
          return subject
      summary2 = summary.replace(FEATURE, "").replace(PAGE, "")
      subject2 = f"{prefix}: {summary2}".strip()
      if len(subject2) <= limit:
          return subject2
      return subject[:limit]
  \<close>
\<close>

definition compact_subject :: "ustr \<Rightarrow> ustr \<Rightarrow> int \<Rightarrow> ustr" where
  "compact_subject prefix summary limit =
     (let subject = py_strip (prefix @ asc '': '' @ summary) in
        if int (length subject) \<le> limit then subject
        else
          let summary2 = py_replace suffix_page [] (py_replace suffix_feature [] summary);
              subject2 = py_strip (prefix @ asc '': '' @ summary2)
          in if int (length subject2) \<le> limit then subject2 else slice_to subject limit)"

text \<open>\<^verbatim>\<open>str(n)\<close> for a number that is not negative, and \<^verbatim>\<open>"\n".join(lines)\<close>.\<close>

function py_str_nat :: "nat \<Rightarrow> ustr" where
  "py_str_nat n = (if n < 10 then [48 + n] else py_str_nat (n div 10) @ [48 + n mod 10])"
  by pat_completeness auto
termination
  by (relation "measure (\<lambda>n. n)") auto

fun join_lines :: "ustr list \<Rightarrow> ustr" where
  "join_lines [] = []"
| "join_lines [l] = l"
| "join_lines (l # m # ls) = l @ [newline] @ join_lines (m # ls)"

text \<open>\<^verbatim>\<open>_shortstat\<close>: the decoded and stripped output of \<^verbatim>\<open>git diff --shortstat\<close>.\<close>

definition shortstat :: "git_env \<Rightarrow> ustr \<Rightarrow> bool \<Rightarrow> py_exception + ustr" where
  "shortstat env repo_root cached =
     (case git_diff_shortstat env repo_root cached of
        Inl e \<Rightarrow> Inl e
      | Inr out \<Rightarrow> Inr (py_strip (utf8_decode out)))"

text \<open>
  \<^verbatim>\<open>build_message\<close> is modelled in four parts, in the order of its body: reading the
  change set (\<open>read_changes\<close>), choosing the summary (\<open>summary_of\<close>), the lines of
  the body (\<open>body_lines\<close>), and \<open>build_message\<close> itself, which puts them together.
  \<^verbatim>\<open>
      changed = _list_changed_files(repo_root, cached=cached)
      if not cached:
          changed = changed + _list_untracked_files(repo_root)
  \<close>
\<close>

definition read_changes :: "git_env \<Rightarrow> ustr \<Rightarrow> bool \<Rightarrow> py_exception + ChangedFile list" where
  "read_changes env repo_root cached =
     (case list_changed_files env repo_root cached of
        Inl e \<Rightarrow> Inl e
      | Inr changed \<Rightarrow>
          if \<not> cached then
            (case list_untracked_files env repo_root of
               Inl e \<Rightarrow> Inl e
             | Inr untracked \<Rightarrow> Inr (changed @ untracked))
          else Inr changed)"

text \<open>
  \<^verbatim>\<open>
      if user_hint:
          summary = user_hint.strip()
      elif obj:
          if commit_type == "docs":
              summary = f"{action}{obj}DOCS"
          elif obj in {ABOUT, PRIVACY} and any("about" in p.lower() for p in paths):
              summary = f"{action}{obj}PAGE"
          elif PAGE in obj or obj.endswith(PAGE[0]):
              summary = f"{action}{obj}"
          else:
              summary = f"{action}{obj}FEATURE"
      else:
          summary = f"{action}{area}CHANGES"
  \<close>
\<close>

definition summary_of ::
  "ustr \<Rightarrow> ustr \<Rightarrow> ustr option \<Rightarrow> ustr \<Rightarrow> ustr option \<Rightarrow> ustr list \<Rightarrow> ustr" where
  "summary_of commit_type area obj action user_hint paths =
     (case (case user_hint of None \<Rightarrow> None | Some h \<Rightarrow> if h \<noteq> [] then Some h else None) of
        Some h \<Rightarrow> py_strip h
      | None \<Rightarrow>
          (case (case obj of None \<Rightarrow> None | Some ob \<Rightarrow> if ob \<noteq> [] then Some ob else None) of
             Some ob \<Rightarrow>
               if commit_type = asc ''docs'' then action @ ob @ suffix_docs
               else if (ob = label_about \<or> ob = label_privacy)
                       \<and> list_ex (\<lambda>p. contains (asc ''about'') (py_lower p)) paths
                 then action @ ob @ suffix_page
               else if contains suffix_page ob \<or> endswith ob [39029]
                 then action @ ob
               else action @ ob @ suffix_feature
           | None \<Rightarrow> action @ area @ suffix_changes))"

text \<open>
  \<^verbatim>\<open>
      lines: List[str] = []
      if stat:
          lines.append(f"- STAT{stat}")
      max_files = 12
      for c in changed[:max_files]:
          lines.append(f"- {c.status} {c.path}")
      if len(changed) > max_files:
          lines.append(f"- ... MORE {len(changed) - max_files} FILES")
  \<close>
\<close>

definition max_files :: nat where "max_files = 12"

definition stat_line :: "ustr \<Rightarrow> ustr" where
  "stat_line stat = [45, 32, 32479, 35745, 65306] @ stat"
  \<comment> \<open>hyphen, space, U+7EDF U+8BA1 (statistics), U+FF1A (full-width colon)\<close>

definition file_line :: "ChangedFile \<Rightarrow> ustr" where
  "file_line c = asc ''- '' @ status c @ asc '' '' @ path c"

definition more_line :: "nat \<Rightarrow> ustr" where
  "more_line n =
     asc ''- ... '' @ [20197, 21450, 21478, 22806] @ asc '' '' @ py_str_nat n
     @ asc '' '' @ [20010, 25991, 20214]"
  \<comment> \<open>U+4EE5 U+53CA U+53E6 U+5916 (and further), the number, U+4E2A U+6587 U+4EF6 (files)\<close>

definition body_lines :: "ustr \<Rightarrow> ChangedFile list \<Rightarrow> ustr list" where
  "body_lines stat changed =
     (if stat \<noteq> [] then [stat_line stat] else [])
     @ map file_line (take max_files changed)
     @ (if length changed > max_files then [more_line (length changed - max_files)] else [])"

definition no_changes :: py_exception where
  "no_changes = RuntimeError (asc ''no changes to summarize'')"

definition build_message ::
  "git_env \<Rightarrow> ustr \<Rightarrow> bool \<Rightarrow> ustr option \<Rightarrow> py_exception + (ustr \<times> ustr)" where
  "build_message env repo_root cached user_hint =
     (case read_changes env repo_root cached of
        Inl e \<Rightarrow> Inl e
      | Inr changed \<Rightarrow>
          let paths = map path changed;
              statuses = map status changed
          in if paths = [] then Inl no_changes
             else
               let commit_type = infer_type paths user_hint;
                   area = dominant_area paths;
                   obj = infer_object changed;
                   action = infer_action statuses;
                   summary = summary_of commit_type area obj action user_hint paths;
                   subject = compact_subject commit_type summary 50
               in (case shortstat env repo_root cached of
                     Inl e \<Rightarrow> Inl e
                   | Inr stat \<Rightarrow>
                       Inr (subject, py_strip (join_lines (body_lines stat changed)))))"

section \<open>The entry point\<close>

text \<open>
  \<^verbatim>\<open>_get_repo_root\<close>: a failing \<^verbatim>\<open>git rev-parse --show-toplevel\<close> prints
  \<^verbatim>\<open>not a git repo\<close> on the error stream and leaves through \<^verbatim>\<open>sys.exit(2)\<close>.
\<close>

definition get_repo_root :: "git_env \<Rightarrow> py_exception + ustr" where
  "get_repo_root env =
     (case git_rev_parse env of
        (code, out) \<Rightarrow>
          if code \<noteq> 0 then Inl (SystemExit 2) else Inr (py_strip (utf8_decode out)))"

text \<open>
  What \<^verbatim>\<open>parser.parse_args()\<close> makes of the command line: the parsed options; or,
  for a command line it rejects (an unknown option, \<^verbatim>\<open>--hint\<close> without a value), the
  usage and error text that it prints on the error stream before it ends the process
  with status 2; or, for \<^verbatim>\<open>-h\<close>, the help text that it prints on the standard output
  before it ends the process with status 0. A run leaves behind the exit code of the
  process and what was printed on the two streams.
\<close>

record cli_args =
  arg_cached :: bool
  arg_worktree :: bool
  arg_hint :: "ustr option"
  arg_json :: bool

datatype parse_result = Rejected ustr | Help ustr | Parsed cli_args

record outcome =
  exit_code :: int
  stdout :: "printed list"
  stderr :: "printed list"

text \<open>
  Printing items on the standard output, one \<^verbatim>\<open>print\<close> after the other, as the last
  thing a run does: the first item that the stream cannot encode raises
  \<^verbatim>\<open>UnicodeEncodeError\<close>, which nothing catches, so the items before it stay printed
  and the process ends with a traceback and status 1.
\<close>

fun emit :: "(printed \<Rightarrow> bool) \<Rightarrow> printed list \<Rightarrow> printed list \<times> bool" where
  "emit ok [] = ([], True)"
| "emit ok (x # xs) =
     (if ok x then (case emit ok xs of (shown, fine) \<Rightarrow> (x # shown, fine)) else ([], False))"

definition print_all :: "git_env \<Rightarrow> printed list \<Rightarrow> outcome" where
  "print_all env items =
     (case emit (stdout_accepts env) items of
        (shown, fine) \<Rightarrow>
          if fine then \<lparr>exit_code = 0, stdout = shown, stderr = []\<rparr>
          else \<lparr>exit_code = 1, stdout = shown, stderr = [Traceback]\<rparr>)"

text \<open>\<^verbatim>\<open>str(e)\<close> of a caught exception.\<close>

fun exception_text :: "py_exception \<Rightarrow> ustr" where
  "exception_text (RuntimeError msg) = msg"
| "exception_text (CalledProcessError msg) = msg"
| "exception_text IndexError = asc ''list index out of range''"
| "exception_text (SystemExit code) = []"

text \<open>
  \<^verbatim>\<open>main\<close>, from the result of \<^verbatim>\<open>parser.parse_args()\<close> on. \<^verbatim>\<open>except Exception\<close>
  does not catch \<^verbatim>\<open>SystemExit\<close>.
  \<^verbatim>\<open>
      args = parser.parse_args()
      if args.cached and args.worktree:
          print("choose one of --cached or --worktree", file=sys.stderr)
          return 2
      cached = not args.worktree
      repo_root = _get_repo_root()
      try:
          subject, body = build_message(repo_root, cached=cached, user_hint=args.hint)
      except Exception as e:
          print(str(e), file=sys.stderr)
          return 3
      if args.json:
          print(json.dumps({"subject": subject, "body": body}, ensure_ascii=False))
          return 0
      print(f"subject: {subject}")
      if body:
          print("body:")
          print(body)
      return 0
  \<close>
\<close>

definition main :: "parse_result \<Rightarrow> git_env \<Rightarrow> outcome" where
  "main command_line env =
     (case command_line of
        Rejected usage \<Rightarrow> \<lparr>exit_code = 2, stdout = [], stderr = [Line usage]\<rparr>
      | Help text \<Rightarrow> print_all env [Line text]
      | Parsed args \<Rightarrow>
          if arg_cached args \<and> arg_worktree args then
            \<lparr>exit_code = 2, stdout = [],
             stderr = [Line (asc ''choose one of --cached or --worktree'')]\<rparr>
          else
            let cached = \<not> arg_worktree args in
              (case get_repo_root env of
                 Inl e \<Rightarrow>
                   \<lparr>exit_code = (case e of SystemExit code \<Rightarrow> code | _ \<Rightarrow> 1), stdout = [],
                    stderr = [Line (asc ''not a git repo'')]\<rparr>
               | Inr repo_root \<Rightarrow>
                   (case build_message env repo_root cached (arg_hint args) of
                      Inl (SystemExit code) \<Rightarrow> \<lparr>exit_code = code, stdout = [], stderr = []\<rparr>
                    | Inl e \<Rightarrow>
                        \<lparr>exit_code = 3, stdout = [], stderr = [Line (exception_text e)]\<rparr>
                    | Inr (subject, body) \<Rightarrow>
                        if arg_json args then print_all env [JsonObject subject body]
                        else
                          print_all env
                            ([Line (asc ''subject: '' @ subject)]
                             @ (if body \<noteq> [] then [Line (asc ''body:''), Line body] else [])))))"

section \<open>Notions used to state the properties\<close>

text \<open>
  A record of the stream that \<^verbatim>\<open>git diff --name-status -z\<close> writes: an ordinary record
  is a status field and a path field, a rename or copy record is a status field
  (\<^verbatim>\<open>R100\<close>, \<^verbatim>\<open>C75\<close>, ...) and two path fields, the old path and the new one. In a
  well-formed record the status is not empty and starts with \<^verbatim>\<open>R\<close> or \<^verbatim>\<open>C\<close> exactly
  when two paths follow. \<open>normalize\<close> is the entry expected for a record, and
  \<open>incomplete\<close> describes the fields of a record that the end of the stream cut short.
\<close>

datatype 'a diff_record = Ordinary 'a 'a | RenameCopy 'a 'a 'a

fun fields :: "'a diff_record \<Rightarrow> 'a list" where
  "fields (Ordinary st p) = [st, p]"
| "fields (RenameCopy st old new) = [st, old, new]"

definition rename_or_copy :: "ustr \<Rightarrow> bool" where
  "rename_or_copy st = (startswith st (asc ''R'') \<or> startswith st (asc ''C''))"

fun well_formed :: "ustr diff_record \<Rightarrow> bool" where
  "well_formed (Ordinary st p) = (st \<noteq> [] \<and> \<not> rename_or_copy st)"
| "well_formed (RenameCopy st old new) = rename_or_copy st"

fun incomplete :: "ustr list \<Rightarrow> bool" where
  "incomplete [st] = (st \<noteq> [])"
| "incomplete [st, old] = rename_or_copy st"
| "incomplete fs = False"

fun normalize :: "ustr diff_record \<Rightarrow> ChangedFile" where
  "normalize (Ordinary st p) = \<lparr>status = take 1 st, path = p\<rparr>"
| "normalize (RenameCopy st old new) = \<lparr>status = take 1 st, path = new\<rparr>"

text \<open>
  For the scores of \<^verbatim>\<open>_infer_object\<close>: \<open>score_of score zh\<close> is
  \<^verbatim>\<open>score.get(zh, 0)\<close>, \<open>hits needle items\<close> is the weight that the keyword
  \<open>needle\<close> collects over the pairs of lower-cased path and status, and
  \<open>keywords_in zh p\<close> is the number of keywords with the label \<open>zh\<close> that occur in
  the lower-cased path \<open>p\<close>.
\<close>

definition score_of :: "(ustr \<times> nat) list \<Rightarrow> ustr \<Rightarrow> nat" where
  "score_of score zh = (case map_of score zh of None \<Rightarrow> 0 | Some v \<Rightarrow> v)"

definition hits :: "ustr \<Rightarrow> (ustr \<times> ustr) list \<Rightarrow> nat" where
  "hits needle items = (\<Sum>(p, st)\<leftarrow>items. if contains needle p then weight_of st else 0)"

definition keywords_in :: "ustr \<Rightarrow> ustr \<Rightarrow> nat" where
  "keywords_in zh p = length (filter (\<lambda>(needle, l). l = zh \<and> contains needle p) keyword_table)"

text \<open>
  A concrete run, used to instantiate the theorems: inside a repository whose root is
  \<^verbatim>\<open>/repo\<close>, git reports the rename of \<^verbatim>\<open>old.txt\<close> to \<^verbatim>\<open>new.txt\<close> (status
  \<^verbatim>\<open>R100\<close>) and a modification of \<^verbatim>\<open>a.py\<close>, no untracked file, and the statistics
  line \<^verbatim>\<open>2 files changed, 3 insertions(+)\<close>. The byte strings are the ASCII codes of
  these texts.
\<close>

definition example_records :: "bytes diff_record list" where
  "example_records =
     [RenameCopy [82, 49, 48, 48] [111, 108, 100, 46, 116, 120, 116] [110, 101, 119, 46, 116, 120, 116],
      Ordinary [77] [97, 46, 112, 121]]"

definition example_env :: git_env where
  "example_env =
     \<lparr>git_rev_parse = (0, [47, 114, 101, 112, 111, 10]),
      git_diff_name_status = (\<lambda>repo_root cached. Inr ([82, 49, 48, 48] @ [0] @ [111, 108, 100, 46, 116, 120, 116] @ [0] @ [110, 101, 119, 46, 116, 120, 116] @ [0] @ [77] @ [0] @ [97, 46, 112, 121] @ [0])),
      git_ls_untracked = (\<lambda>repo_root. Inr []),
      git_diff_shortstat = (\<lambda>repo_root cached. Inr [32, 50, 32, 102, 105, 108, 101, 115, 32, 99, 104, 97, 110, 103, 101, 100, 44, 32, 51, 32, 105, 110, 115, 101, 114, 116, 105, 111, 110, 115, 40, 43, 41, 10]),
      stdout_accepts = (\<lambda>item. True)\<rparr>"

text \<open>
  Scenario B: the change set is the single added file
  \<^verbatim>\<open>mobile-app/auth/login.tsx\<close>, read from the staged changes of a repository whose
  statistics line is empty.
\<close>

definition scenario_b_env :: git_env where
  "scenario_b_env =
     \<lparr>git_rev_parse = (0, [47, 114, 101, 112, 111, 10]),
      git_diff_name_status = (\<lambda>repo_root cached. Inr ([65] @ [0] @ [109, 111, 98, 105, 108, 101, 45, 97, 112, 112, 47, 97, 117, 116, 104, 47, 108, 111, 103, 105, 110, 46, 116, 115, 120] @ [0])),
      git_ls_untracked = (\<lambda>repo_root. Inr []),
      git_diff_shortstat = (\<lambda>repo_root cached. Inr []),
      stdout_accepts = (\<lambda>item. True)\<rparr>"

definition scenario_b :: "ChangedFile list" where
  "scenario_b = [\<lparr>status = asc ''A'', path = asc ''mobile-app/auth/login.tsx''\<rparr>]"


definition plain_args :: cli_args where
  "plain_args = \<lparr>arg_cached = False, arg_worktree = False, arg_hint = None, arg_json = False\<rparr>"

definition clean_env :: git_env where
  "clean_env = example_env\<lparr>git_diff_name_status := (\<lambda>repo_root cached. Inr [])\<rparr>"

text \<open>
  Scenario C: fifteen modified files \<^verbatim>\<open>backend/a.py\<close>, ..., \<^verbatim>\<open>backend/o.py\<close> are
  staged, and git reports a statistics line. \<open>scenario_c\<close> is the change set read from
  that stream.
\<close>

definition scenario_c_records :: "bytes diff_record list" where
  "scenario_c_records =
     map (\<lambda>c. Ordinary [77] ([98, 97, 99, 107, 101, 110, 100, 47] @ [c] @ [46, 112, 121]))
       [97, 98, 99, 100, 101, 102, 103, 104, 105, 106, 107, 108, 109, 110, 111]"

definition scenario_c_env :: git_env where
  "scenario_c_env =
     \<lparr>git_rev_parse = (0, [47, 114, 101, 112, 111, 10]),
      git_diff_name_status =
        (\<lambda>repo_root cached.
           Inr (concat (map (\<lambda>f. f @ [NUL]) (concat (map fields scenario_c_records))))),
      git_ls_untracked = (\<lambda>repo_root. Inr []),
      git_diff_shortstat = (\<lambda>repo_root cached. Inr [32, 49, 53, 32, 102, 105, 108, 101, 115, 32, 99, 104, 97, 110, 103, 101, 100, 44, 32, 51, 48, 32, 105, 110, 115, 101, 114, 116, 105, 111, 110, 115, 40, 43, 41, 10]),
      stdout_accepts = (\<lambda>item. True)\<rparr>"

definition scenario_c :: "ChangedFile list" where
  "scenario_c = map (\<lambda>r. normalize (map_diff_record utf8_decode r)) scenario_c_records"

text \<open>
  The message that the program builds in scenario C: the subject \<^verbatim>\<open>feat: \<close> followed by
  U+66F4 U+65B0 (update), U+540E U+7AEF (backend) and U+53D8 U+66F4 (changes), and the
  fourteen lines of the body, separated by newlines: the statistics line (after a hyphen,
  a space, U+7EDF U+8BA1 and the full-width colon U+FF1A), twelve file lines, and the
  line that counts 3 more files (U+4EE5 U+53CA U+53E6 U+5916, the number, U+4E2A U+6587
  U+4EF6).
\<close>

definition scenario_c_subject :: ustr where
  "scenario_c_subject = asc ''feat: '' @ [26356, 26032, 21518, 31471, 21464, 26356]"

definition scenario_c_lines :: "ustr list" where
  "scenario_c_lines =
     [[45, 32, 32479, 35745, 65306] @ asc ''15 files changed, 30 insertions(+)'',
      asc ''- M backend/a.py'',
      asc ''- M backend/b.py'',
      asc ''- M backend/c.py'',
      asc ''- M backend/d.py'',
      asc ''- M backend/e.py'',
      asc ''- M backend/f.py'',
      asc ''- M backend/g.py'',
      asc ''- M backend/h.py'',
      asc ''- M backend/i.py'',
      asc ''- M backend/j.py'',
      asc ''- M backend/k.py'',
      asc ''- M backend/l.py'',
      asc ''- ... '' @ [20197, 21450, 21478, 22806] @ asc '' 3 '' @ [20010, 25991, 20214]]"

definition scenario_c_body :: ustr where
  "scenario_c_body =
     [45, 32, 32479, 35745, 65306] @ asc ''15 files changed, 30 insertions(+)''
     @ [10] @ asc ''- M backend/a.py''
     @ [10] @ asc ''- M backend/b.py''
     @ [10] @ asc ''- M backend/c.py''
     @ [10] @ asc ''- M backend/d.py''
     @ [10] @ asc ''- M backend/e.py''
     @ [10] @ asc ''- M backend/f.py''
     @ [10] @ asc ''- M backend/g.py''
     @ [10] @ asc ''- M backend/h.py''
     @ [10] @ asc ''- M backend/i.py''
     @ [10] @ asc ''- M backend/j.py''
     @ [10] @ asc ''- M backend/k.py''
     @ [10] @ asc ''- M backend/l.py''
     @ [10] @ asc ''- ... '' @ [20197, 21450, 21478, 22806] @ asc '' 3 '' @ [20010, 25991, 20214]"

text \<open>
  For the dominant area: \<open>first_index xs x\<close> is the position at which \<open>x\<close> first
  occurs in \<open>xs\<close>, and \<open>first_seen xs\<close> lists the elements of \<open>xs\<close> once each, in
  the order of their first occurrence, which is the order of the keys of the
  dictionary that \<^verbatim>\<open>_dominant_area\<close> fills.
\<close>

definition first_index :: "'a list \<Rightarrow> 'a \<Rightarrow> nat" where
  "first_index xs x = length (takeWhile (\<lambda>y. y \<noteq> x) xs)"

definition first_seen :: "'a list \<Rightarrow> 'a list" where
  "first_seen xs = rev (remdups (rev xs))"

text \<open>A hint of 63 code points, longer than the cap of the subject.\<close>

definition long_hint :: ustr where
  "long_hint = asc ''rewrite the whole login flow and all of its screens, end to end''"

section \<open>Properties of the change-set reader\<close>

declare list_changed_files_loop.simps [simp del]
declare py_replace.simps [simp del]
declare py_str_nat.simps [simp del]

lemma asc_R: "asc ''R'' = [82]" by (simp add: asc_def)
lemma asc_C: "asc ''C'' = [67]" by (simp add: asc_def)
lemma asc_A: "asc ''A'' = [65]" by (simp add: asc_def)
lemma asc_D: "asc ''D'' = [68]" by (simp add: asc_def)

lemma rename_or_copy_take1:
  "rename_or_copy st \<longleftrightarrow> (take 1 st = asc ''R'' \<or> take 1 st = asc ''C'')"
  by (simp add: rename_or_copy_def startswith_def asc_R asc_C)

lemma rename_or_copy_nonempty: "rename_or_copy st \<Longrightarrow> st \<noteq> []"
  by (auto simp: rename_or_copy_def startswith_def asc_R asc_C)

lemma loop_done: "length parts \<le> i \<Longrightarrow> list_changed_files_loop parts i changed = Inr changed"
  by (subst list_changed_files_loop.simps) simp

lemma loop_skip:
  "i < length parts \<Longrightarrow> parts ! i = [] \<Longrightarrow>
   list_changed_files_loop parts i changed = list_changed_files_loop parts (i + 1) changed"
  by (subst list_changed_files_loop.simps) (simp add: py_index_def)

lemma loop_rename:
  "i + 2 < length parts \<Longrightarrow> rename_or_copy (parts ! i) \<Longrightarrow>
   list_changed_files_loop parts i changed =
   list_changed_files_loop parts (i + 3)
     (changed @ [\<lparr>status = take 1 (parts ! i), path = parts ! (i + 2)\<rparr>])"
  by (subst list_changed_files_loop.simps)
     (auto simp: py_index_def rename_or_copy_def startswith_def asc_R asc_C)

lemma loop_rename_cut:
  "i < length parts \<Longrightarrow> length parts \<le> i + 2 \<Longrightarrow> rename_or_copy (parts ! i) \<Longrightarrow>
   list_changed_files_loop parts i changed = Inr changed"
  by (subst list_changed_files_loop.simps)
     (auto simp: py_index_def rename_or_copy_def startswith_def asc_R asc_C)

lemma loop_plain:
  "i + 1 < length parts \<Longrightarrow> parts ! i \<noteq> [] \<Longrightarrow> \<not> rename_or_copy (parts ! i) \<Longrightarrow>
   list_changed_files_loop parts i changed =
   list_changed_files_loop parts (i + 2)
     (changed @ [\<lparr>status = take 1 (parts ! i), path = parts ! (i + 1)\<rparr>])"
  by (subst list_changed_files_loop.simps)
     (auto simp: py_index_def rename_or_copy_def)

lemma loop_plain_cut:
  "i < length parts \<Longrightarrow> length parts \<le> i + 1 \<Longrightarrow>
   list_changed_files_loop parts i changed = Inr changed"
  by (subst list_changed_files_loop.simps)
     (auto simp: py_index_def loop_done)

lemma loop_records:
  "list_all well_formed rs \<Longrightarrow>
   list_changed_files_loop (pre @ concat (map fields rs) @ post) (length pre) changed =
   list_changed_files_loop (pre @ concat (map fields rs) @ post)
     (length pre + length (concat (map fields rs))) (changed @ map normalize rs)"
proof (induction rs arbitrary: pre changed)
  case Nil
  then show ?case by simp
next
  case (Cons r rs)
  show ?case
  proof (cases r)
    case (Ordinary st p)
    let ?parts = "pre @ concat (map fields (r # rs)) @ post"
    have wf: "st \<noteq> []" "\<not> rename_or_copy st" and rest: "list_all well_formed rs"
      using Cons.prems Ordinary by simp_all
    have at: "?parts ! length pre = st" "?parts ! (length pre + 1) = p"
      using Ordinary by (simp_all add: nth_append)
    have step: "list_changed_files_loop ?parts (length pre) changed =
          list_changed_files_loop ?parts (length pre + 2)
            (changed @ [\<lparr>status = take 1 st, path = p\<rparr>])"
      using loop_plain [of "length pre" ?parts changed] wf at Ordinary by simp
    have "list_changed_files_loop ((pre @ [st, p]) @ concat (map fields rs) @ post)
            (length (pre @ [st, p])) (changed @ [\<lparr>status = take 1 st, path = p\<rparr>]) =
          list_changed_files_loop ((pre @ [st, p]) @ concat (map fields rs) @ post)
            (length (pre @ [st, p]) + length (concat (map fields rs)))
            ((changed @ [\<lparr>status = take 1 st, path = p\<rparr>]) @ map normalize rs)"
      by (rule Cons.IH [OF rest])
    with step show ?thesis using Ordinary by simp
  next
    case (RenameCopy st old new)
    let ?parts = "pre @ concat (map fields (r # rs)) @ post"
    have wf: "rename_or_copy st" and rest: "list_all well_formed rs"
      using Cons.prems RenameCopy by simp_all
    have at: "?parts ! length pre = st" "?parts ! (length pre + 2) = new"
      using RenameCopy by (simp_all add: nth_append)
    have step: "list_changed_files_loop ?parts (length pre) changed =
          list_changed_files_loop ?parts (length pre + 3)
            (changed @ [\<lparr>status = take 1 st, path = new\<rparr>])"
      using loop_rename [of "length pre" ?parts changed] wf at RenameCopy by simp
    have "list_changed_files_loop ((pre @ [st, old, new]) @ concat (map fields rs) @ post)
            (length (pre @ [st, old, new])) (changed @ [\<lparr>status = take 1 st, path = new\<rparr>]) =
          list_changed_files_loop ((pre @ [st, old, new]) @ concat (map fields rs) @ post)
            (length (pre @ [st, old, new]) + length (concat (map fields rs)))
            ((changed @ [\<lparr>status = take 1 st, path = new\<rparr>]) @ map normalize rs)"
      by (rule Cons.IH [OF rest])
    with step show ?thesis using RenameCopy by (simp add: numeral_3_eq_3)
  qed
qed

lemma split_on_field:
  "sep \<notin> set f \<Longrightarrow> split_on sep (f @ sep # rest) = f # split_on sep rest"
  by (induction f) auto

lemma split_on_terminated:
  "\<forall>f\<in>set fs. sep \<notin> set f \<Longrightarrow>
   split_on sep (concat (map (\<lambda>f. f @ [sep]) fs)) = fs @ [[]]"
  by (induction fs) (auto simp: split_on_field)

lemma parse_z_pairs_terminated:
  assumes "\<forall>f\<in>set fs. NUL \<notin> set f"
  shows "parse_z_pairs (concat (map (\<lambda>f. f @ [NUL]) fs)) = map utf8_decode fs"
proof (cases fs)
  case Nil
  then show ?thesis by (simp add: parse_z_pairs_def)
next
  case (Cons f fs')
  have "split_on NUL (concat (map (\<lambda>f. f @ [NUL]) fs)) = fs @ [[]]"
    using assms by (rule split_on_terminated)
  moreover have "concat (map (\<lambda>f. f @ [NUL]) fs) \<noteq> []"
    using Cons by simp
  ultimately show ?thesis
    by (simp add: parse_z_pairs_def Let_def)
qed

lemma fields_map: "fields (map_diff_record f r) = map f (fields r)"
  by (cases r) simp_all

lemma loop_total:
  "\<exists>cs. list_changed_files_loop parts i changed = Inr cs
        \<and> (\<forall>c\<in>set cs. c \<in> set changed \<or> path c \<in> set parts)"
proof (induction "length parts - i" arbitrary: i changed rule: less_induct)
  case less
  show ?case
  proof (cases "i < length parts")
    case False
    then show ?thesis by (simp add: loop_done)
  next
    case inside: True
    show ?thesis
    proof (cases "parts ! i = []")
      case True
      have "length parts - (i + 1) < length parts - i" using inside by simp
      from less [OF this, of changed] show ?thesis
        using loop_skip [OF inside True] by simp
    next
      case nonempty: False
      show ?thesis
      proof (cases "rename_or_copy (parts ! i)")
        case True
        show ?thesis
        proof (cases "i + 2 < length parts")
          case False
          then show ?thesis using loop_rename_cut [OF inside _ True, of changed] by simp
        next
          case room: True
          let ?c = "\<lparr>status = take 1 (parts ! i), path = parts ! (i + 2)\<rparr>"
          have "length parts - (i + 3) < length parts - i" using inside by simp
          from less [OF this, of "changed @ [?c]"] obtain cs where
            cs: "list_changed_files_loop parts (i + 3) (changed @ [?c]) = Inr cs"
                "\<forall>c\<in>set cs. c \<in> set (changed @ [?c]) \<or> path c \<in> set parts"
            by blast
          have "path ?c \<in> set parts" using room by simp
          with cs show ?thesis using loop_rename [OF room True, of changed] by auto
        qed
      next
        case plain: False
        show ?thesis
        proof (cases "i + 1 < length parts")
          case False
          then show ?thesis using loop_plain_cut [OF inside, of changed] by simp
        next
          case room: True
          let ?c = "\<lparr>status = take 1 (parts ! i), path = parts ! (i + 1)\<rparr>"
          have "length parts - (i + 2) < length parts - i" using inside by simp
          from less [OF this, of "changed @ [?c]"] obtain cs where
            cs: "list_changed_files_loop parts (i + 2) (changed @ [?c]) = Inr cs"
                "\<forall>c\<in>set cs. c \<in> set (changed @ [?c]) \<or> path c \<in> set parts"
            by blast
          have "path ?c \<in> set parts" using room by simp
          with cs show ?thesis using loop_plain [OF room nonempty plain, of changed] by auto
        qed
      qed
    qed
  qed
qed

lemma loop_incomplete:
  assumes "incomplete t"
  shows "list_changed_files_loop (pre @ t) (length pre) changed = Inr changed"
proof (cases t)
  case Nil
  with assms show ?thesis by simp
next
  case (Cons st t')
  show ?thesis
  proof (cases t')
    case Nil
    with Cons show ?thesis
      using loop_plain_cut [of "length pre" "pre @ t" changed] by simp
  next
    case (Cons old t'')
    with assms \<open>t = st # t'\<close> have t: "t = [st, old]" and rc: "rename_or_copy st"
      by (cases t''; simp)+
    show ?thesis
      using loop_rename_cut [of "length pre" "pre @ t" changed] rc by (simp add: t)
  qed
qed

lemma reader_on_records:
  assumes "git_diff_name_status env repo_root cached =
             Inr (concat (map (\<lambda>f. f @ [NUL]) (concat (map fields rs))))"
    and "\<forall>r\<in>set rs. \<forall>f\<in>set (fields r). NUL \<notin> set f"
    and "list_all well_formed (map (map_diff_record utf8_decode) rs)"
  shows "list_changed_files env repo_root cached =
           Inr (map (\<lambda>r. normalize (map_diff_record utf8_decode r)) rs)"
proof -
  let ?ds = "map (map_diff_record utf8_decode) rs"
  have "\<forall>f\<in>set (concat (map fields rs)). NUL \<notin> set f"
    using assms(2) by auto
  then have "parse_z_pairs (concat (map (\<lambda>f. f @ [NUL]) (concat (map fields rs))))
               = map utf8_decode (concat (map fields rs))"
    by (rule parse_z_pairs_terminated)
  also have "\<dots> = concat (map fields ?ds)"
    by (simp add: map_concat fields_map comp_def)
  finally have parts: "parse_z_pairs (concat (map (\<lambda>f. f @ [NUL]) (concat (map fields rs))))
               = concat (map fields ?ds)" .
  have "list_changed_files_loop ([] @ concat (map fields ?ds) @ []) (length ([] :: ustr list)) []
          = list_changed_files_loop ([] @ concat (map fields ?ds) @ [])
              (length ([] :: ustr list) + length (concat (map fields ?ds))) ([] @ map normalize ?ds)"
    using assms(3) by (rule loop_records)
  then have "list_changed_files_loop (concat (map fields ?ds)) 0 [] = Inr (map normalize ?ds)"
    by (simp add: loop_done)
  then show ?thesis
    using assms(1) parts by (simp add: list_changed_files_def comp_def)
qed


text \<open>
  C9. In a well-formed stream every record is read at its own offset: the reader takes
  three NUL-terminated fields (status, old path, new path) for a rename or copy record
  and keeps the new path, and two fields (status, path) for any other record, so the
  entries it returns are those of the records, one for one and in order. The stream is
  the output of git, each field followed by NUL; the records are well formed after
  decoding.
\<close>

theorem change_list_parser_field_offsets:
  assumes "git_diff_name_status env repo_root cached =
             Inr (concat (map (\<lambda>f. f @ [NUL]) (concat (map fields rs))))"
    and "\<forall>r\<in>set rs. \<forall>f\<in>set (fields r). NUL \<notin> set f"
    and "list_all well_formed (map (map_diff_record utf8_decode) rs)"
  shows "list_changed_files env repo_root cached =
           Inr (map (\<lambda>r. normalize (map_diff_record utf8_decode r)) rs)"
  using assms by (rule reader_on_records)

theorem change_list_parser_field_offsets_witness:
  "list_all (\<lambda>r. list_all (\<lambda>f. NUL \<notin> set f) (fields r)) example_records
   \<and> list_all well_formed (map (map_diff_record utf8_decode) example_records)
   \<and> list_changed_files example_env (asc ''/repo'') True =
       Inr [\<lparr>status = asc ''R'', path = asc ''new.txt''\<rparr>,
            \<lparr>status = asc ''M'', path = asc ''a.py''\<rparr>]"
  using change_list_parser_field_offsets [of example_env "asc ''/repo''" True example_records]
  by (simp add: example_env_def example_records_def NUL_def utf8_decode_def
        rename_or_copy_def startswith_def asc_def)

text \<open>
  C10. A stream that ends inside a record (a status with no path after it, or a rename
  or copy status with fewer than two paths after it) yields the entries of the
  complete records before it: the cut record is dropped. The reader never raises, on
  any list of fields, and the path of every entry it returns is a field of the stream.
\<close>

theorem truncated_stream_discarded:
  "(\<exists>cs. list_changed_files_loop parts 0 [] = Inr cs \<and> (\<forall>c\<in>set cs. path c \<in> set parts))
   \<and> (list_all well_formed rs \<and> incomplete t \<longrightarrow>
        list_changed_files_loop (concat (map fields rs) @ t) 0 [] = Inr (map normalize rs))
   \<and> (git_diff_name_status env repo_root cached = Inr raw \<longrightarrow>
        (\<exists>cs. list_changed_files env repo_root cached = Inr cs
              \<and> (\<forall>c\<in>set cs. path c \<in> set (parse_z_pairs raw))))"
proof (intro conjI impI)
  show "\<exists>cs. list_changed_files_loop parts 0 [] = Inr cs \<and> (\<forall>c\<in>set cs. path c \<in> set parts)"
    using loop_total [of parts 0 "[]"] by simp
next
  assume a: "list_all well_formed rs \<and> incomplete t"
  have "list_changed_files_loop ([] @ concat (map fields rs) @ t) (length ([] :: ustr list)) []
          = list_changed_files_loop ([] @ concat (map fields rs) @ t)
              (length ([] :: ustr list) + length (concat (map fields rs))) ([] @ map normalize rs)"
    using a by (intro loop_records) simp
  moreover have "list_changed_files_loop (concat (map fields rs) @ t)
                   (length (concat (map fields rs))) (map normalize rs) = Inr (map normalize rs)"
    using a by (intro loop_incomplete) simp
  ultimately show "list_changed_files_loop (concat (map fields rs) @ t) 0 [] = Inr (map normalize rs)"
    by simp
next
  assume "git_diff_name_status env repo_root cached = Inr raw"
  then show "\<exists>cs. list_changed_files env repo_root cached = Inr cs
              \<and> (\<forall>c\<in>set cs. path c \<in> set (parse_z_pairs raw))"
    using loop_total [of "parse_z_pairs raw" 0 "[]"] by (simp add: list_changed_files_def)
qed

lemma infer_action_skip:
  "st \<noteq> asc ''A'' \<Longrightarrow> st \<noteq> asc ''D'' \<Longrightarrow> infer_action (st # ss) = infer_action ss"
  by (simp add: infer_action_def)


theorem truncated_stream_discarded_witness:
  "list_all well_formed [Ordinary (asc ''M'') (asc ''a.py'')]
   \<and> incomplete [asc ''R100'', asc ''old.txt'']
   \<and> list_changed_files_loop [asc ''M'', asc ''a.py'', asc ''R100'', asc ''old.txt''] 0 []
       = Inr [\<lparr>status = asc ''M'', path = asc ''a.py''\<rparr>]
   \<and> (\<exists>cs. list_changed_files example_env (asc ''/repo'') True = Inr cs)"
  using truncated_stream_discarded [of "[asc ''M'', asc ''a.py'', asc ''R100'', asc ''old.txt'']"
      "[Ordinary (asc ''M'') (asc ''a.py'')]" "[asc ''R100'', asc ''old.txt'']"
      example_env "asc ''/repo''" True
      "[82, 49, 48, 48, 0, 111, 108, 100, 46, 116, 120, 116, 0, 110, 101, 119, 46, 116, 120, 116, 0, 77, 0, 97, 46, 112, 121, 0]"]
  by (simp add: example_env_def rename_or_copy_def startswith_def asc_def) blast

lemma score_of_add_score:
  "score_of (add_score k w score) zh = score_of score zh + (if zh = k then w else 0)"
  by (induction score) (auto simp: score_of_def)

lemma score_inner:
  "score_of (fold (\<lambda>(p, st) score.
                     if contains needle p then add_score l (weight_of st) score else score)
                  items score) zh
     = score_of score zh + (if l = zh then hits needle items else 0)"
  by (induction items arbitrary: score) (auto simp: hits_def score_of_add_score)

lemma score_outer:
  "score_of (fold (\<lambda>(needle, l) score.
                     fold (\<lambda>(p, st) score.
                             if contains needle p then add_score l (weight_of st) score
                             else score)
                          items score)
                  kws score) zh
     = score_of score zh + (\<Sum>(needle, l)\<leftarrow>kws. if l = zh then hits needle items else 0)"
  by (induction kws arbitrary: score) (auto simp: score_inner)

lemma score_items_closed:
  "score_of (score_items items) zh
     = (\<Sum>(needle, l)\<leftarrow>keyword_table. if l = zh then hits needle items else 0)"
  using score_outer [of items keyword_table "[]" zh]
  by (simp add: score_items_def score_of_def)

lemma hits_insert:
  "hits needle (pre @ (p, st) # post)
     = hits needle (pre @ post) + (if contains needle p then weight_of st else 0)"
  by (simp add: hits_def)

lemma closed_insert:
  "(\<Sum>(needle, l)\<leftarrow>kws. if l = zh then hits needle (pre @ (p, st) # post) else 0)
     = (\<Sum>(needle, l)\<leftarrow>kws. if l = zh then hits needle (pre @ post) else 0)
       + weight_of st * length (filter (\<lambda>(needle, l). l = zh \<and> contains needle p) kws)"
proof (induction kws)
  case Nil
  then show ?case by simp
next
  case (Cons kw kws)
  obtain needle l where kw: "kw = (needle, l)" by (cases kw)
  show ?case
    using Cons.IH
    by (cases "l = zh"; cases "contains needle p") (simp_all add: kw hits_insert)
qed

lemma score_items_insert:
  "score_of (score_items (pre @ (p, st) # post)) zh
     = score_of (score_items (pre @ post)) zh + weight_of st * keywords_in zh p"
  by (simp add: score_items_closed closed_insert keywords_in_def)

lemma keyword_scores_insert:
  "score_of (keyword_scores (before @ c # after)) zh
     = score_of (keyword_scores (before @ after)) zh
       + weight_of (status c) * keywords_in zh (py_lower (path c))"
  using score_items_insert [of "map (\<lambda>c. (py_lower (path c), status c)) before"
      "py_lower (path c)" "status c" "map (\<lambda>c. (py_lower (path c), status c)) after" zh]
  by (simp add: keyword_scores_def)

lemma rename_scores_evaluated:
  "infer_object [\<lparr>status = asc ''R'', path = asc ''a/login.ts''\<rparr>,
                 \<lparr>status = asc ''C'', path = asc ''b/Login.ts''\<rparr>,
                 \<lparr>status = asc ''A'', path = asc ''c/search.ts''\<rparr>]
     = Some [25628, 32034]"
proof -
  have "priority_phase [\<lparr>status = asc ''R'', path = asc ''a/login.ts''\<rparr>,
                 \<lparr>status = asc ''C'', path = asc ''b/Login.ts''\<rparr>,
                 \<lparr>status = asc ''A'', path = asc ''c/search.ts''\<rparr>] = None"
    by (simp add: startswith_def py_lower_def lower_cp_def asc_def)
  moreover have "keyword_scores [\<lparr>status = asc ''R'', path = asc ''a/login.ts''\<rparr>,
                 \<lparr>status = asc ''C'', path = asc ''b/Login.ts''\<rparr>,
                 \<lparr>status = asc ''A'', path = asc ''c/search.ts''\<rparr>]
      = [(label_login, 2), ([25628, 32034], 3)]"
    by (simp add: keyword_scores_def score_items_def keyword_table_def weight_of_def
        startswith_def py_lower_def lower_cp_def label_login_def label_auth_def
        label_about_def label_privacy_def asc_def)
  ultimately show ?thesis
    by (simp add: infer_object_def)
qed

text \<open>
  C1 (as amended). A rename or copy record becomes one entry whose path is the new path
  and whose status is the first letter of the raw status, \<^verbatim>\<open>R\<close> or \<^verbatim>\<open>C\<close>, not
  \<^verbatim>\<open>A\<close>. The classifiers treat it as an entry that is not added: it does not decide
  \<^verbatim>\<open>_infer_action\<close>, the first loop of \<^verbatim>\<open>_infer_object\<close> passes over it, and in
  the scores of \<^verbatim>\<open>_infer_object\<close> it counts 1, not 3, for each keyword found in its
  lower-cased path: wherever the entry stands in the change set, the score of a label
  with the entry is the score without it plus the number of keywords of that label in
  the path.
\<close>

theorem rename_copy_keeps_status_letter:
  assumes "rename_or_copy (parts ! i)" and "i + 2 < length parts"
  shows "list_changed_files_loop parts i changed =
           list_changed_files_loop parts (i + 3)
             (changed @ [\<lparr>status = take 1 (parts ! i), path = parts ! (i + 2)\<rparr>])
         \<and> (take 1 (parts ! i) = asc ''R'' \<or> take 1 (parts ! i) = asc ''C'')
         \<and> take 1 (parts ! i) \<noteq> asc ''A''
         \<and> weight_of (take 1 (parts ! i)) = 1
         \<and> infer_action (take 1 (parts ! i) # ss) = infer_action ss
         \<and> priority_phase (\<lparr>status = take 1 (parts ! i), path = p\<rparr> # cs) = priority_phase cs
         \<and> score_of (keyword_scores
                        (before @ \<lparr>status = take 1 (parts ! i), path = p\<rparr> # after)) zh
             = score_of (keyword_scores (before @ after)) zh + keywords_in zh (py_lower p)"
proof -
  have letter: "take 1 (parts ! i) = asc ''R'' \<or> take 1 (parts ! i) = asc ''C''"
    using assms(1) by (simp add: rename_or_copy_take1)
  then have notA: "take 1 (parts ! i) \<noteq> asc ''A''" and notD: "take 1 (parts ! i) \<noteq> asc ''D''"
    by (auto simp: asc_R asc_C asc_A asc_D)
  have one: "weight_of (take 1 (parts ! i)) = 1"
    using notA by (simp add: weight_of_def)
  have scores: "score_of (keyword_scores
                        (before @ \<lparr>status = take 1 (parts ! i), path = p\<rparr> # after)) zh
             = score_of (keyword_scores (before @ after)) zh + keywords_in zh (py_lower p)"
    using keyword_scores_insert [of before "\<lparr>status = take 1 (parts ! i), path = p\<rparr>" after zh]
      one by simp
  show ?thesis
    using loop_rename [OF assms(2) assms(1), of changed] letter notA one scores
      infer_action_skip [OF notA notD, of ss]
    by (simp add: Let_def)
qed

theorem rename_copy_keeps_status_letter_witness:
  "rename_or_copy ([asc ''C75'', asc ''a.txt'', asc ''b/about.txt''] ! 0)
   \<and> list_changed_files_loop [asc ''C75'', asc ''a.txt'', asc ''b/about.txt''] 0 []
       = Inr [\<lparr>status = asc ''C'', path = asc ''b/about.txt''\<rparr>]
   \<and> weight_of (asc ''C'') = 1
   \<and> infer_action [asc ''C'', asc ''D''] = action_removed
   \<and> priority_phase [\<lparr>status = asc ''C'', path = asc ''b/about.txt''\<rparr>] = None
   \<and> score_of (keyword_scores [\<lparr>status = asc ''C'', path = asc ''b/about.txt''\<rparr>]) label_about
       = 1
   \<and> infer_object [\<lparr>status = asc ''R'', path = asc ''a/login.ts''\<rparr>,
                    \<lparr>status = asc ''C'', path = asc ''b/Login.ts''\<rparr>,
                    \<lparr>status = asc ''A'', path = asc ''c/search.ts''\<rparr>]
       = Some [25628, 32034]"
proof -
  have k: "keywords_in label_about (py_lower (asc ''b/about.txt'')) = 1"
    by (simp add: keywords_in_def keyword_table_def startswith_def py_lower_def lower_cp_def
        label_login_def label_auth_def label_about_def label_privacy_def asc_def)
  have z: "score_of (keyword_scores []) label_about = 0"
    by (simp add: keyword_scores_def score_items_def keyword_table_def score_of_def)
  show ?thesis
    using rename_copy_keeps_status_letter [where parts = "[asc ''C75'', asc ''a.txt'', asc ''b/about.txt'']"
        and i = 0 and changed = "[]" and ss = "[asc ''D'']" and p = "asc ''b/about.txt''"
        and cs = "[]" and before = "[]" and after = "[]" and zh = label_about]
      k z rename_scores_evaluated
    by (simp add: rename_or_copy_def startswith_def asc_def loop_done infer_action_def)
qed

text \<open>
  C1 as stated fails: the entry read for a rename has status \<^verbatim>\<open>R\<close>, which is not
  \<^verbatim>\<open>A\<close>, and the classifiers tell the two apart.
\<close>

theorem rename_treated_as_added_counterexample:
  "list_changed_files_loop [asc ''R100'', asc ''old/login.ts'', asc ''new/login.ts''] 0 []
     = Inr [\<lparr>status = asc ''R'', path = asc ''new/login.ts''\<rparr>]
   \<and> asc ''R'' \<noteq> asc ''A''
   \<and> infer_action [asc ''R''] \<noteq> infer_action [asc ''A'']
   \<and> weight_of (asc ''R'') \<noteq> 3"
proof -
  have "list_changed_files_loop [asc ''R100'', asc ''old/login.ts'', asc ''new/login.ts''] 0 []
     = Inr [\<lparr>status = asc ''R'', path = asc ''new/login.ts''\<rparr>]"
    by (simp add: list_changed_files_loop.simps [of _ 0] list_changed_files_loop.simps [of _ 3] py_index_def startswith_def asc_def)
  then show ?thesis
    by (simp add: infer_action_def weight_of_def action_added_def action_updated_def action_removed_def asc_R asc_A asc_D)
qed

section \<open>Properties of the classifiers and of the renderer\<close>

lemma scenario_b_type: "infer_type (map path scenario_b) None = asc ''feat''"
  by (simp add: scenario_b_def infer_type_def hint_names_defect_def is_docs_only_def
      is_test_only_def is_chore_only_def test_patterns_def ends_dollar_def endswith_def
      startswith_def dir_here_def at_dollar_def allow_def py_lower_def lower_cp_def
      slash_def newline_def asc_def)

lemma scenario_b_scores:
  "keyword_scores scenario_b = [(label_login, 3), (label_auth, 3)]"
  by (simp add: scenario_b_def keyword_scores_def score_items_def keyword_table_def weight_of_def
      startswith_def py_lower_def lower_cp_def label_login_def label_auth_def
      label_about_def label_privacy_def asc_def)

lemma scenario_b_object: "infer_object scenario_b = Some label_login"
proof -
  have "priority_phase scenario_b = None"
    by (simp add: scenario_b_def startswith_def py_lower_def lower_cp_def asc_def)
  then show ?thesis
    by (simp add: infer_object_def scenario_b_scores)
qed

lemma scenario_b_area: "dominant_area (map path scenario_b) = [31227, 21160, 31471]"
  by (simp add: scenario_b_def dominant_area_def tally_def top_segment_def display_name_def
      area_mapping_def slash_def asc_def)

lemma scenario_b_read: "read_changes scenario_b_env root True = Inr scenario_b"
  by (simp add: read_changes_def list_changed_files_def scenario_b_env_def scenario_b_def
      parse_z_pairs_def NUL_def utf8_decode_def list_changed_files_loop.simps [of _ 0]
      loop_done
      py_index_def startswith_def asc_def)

lemma scenario_b_summary:
  "summary_of (asc ''feat'') [31227, 21160, 31471] (Some label_login) action_added None
     (map path scenario_b) = action_added @ label_login @ suffix_feature"
  by (simp add: summary_of_def label_login_def label_about_def label_privacy_def
      suffix_page_def endswith_def startswith_def asc_def)

lemma py_strip_id:
  "s \<noteq> [] \<Longrightarrow> \<not> is_space (hd s) \<Longrightarrow> \<not> is_space (last s) \<Longrightarrow> py_strip s = s"
proof -
  assume a: "s \<noteq> []" "\<not> is_space (hd s)" "\<not> is_space (last s)"
  then have "dropWhile is_space s = s" by (cases s) simp_all
  moreover have "dropWhile is_space (rev s) = rev s"
    using a by (cases "rev s") (simp_all add: last_rev [symmetric] hd_rev)
  ultimately show ?thesis by (simp add: py_strip_def)
qed

lemma scenario_b_subject:
  "compact_subject (asc ''feat'') (action_added @ label_login @ suffix_feature) 50
     = asc ''feat: '' @ action_added @ label_login @ suffix_feature"
proof -
  have "py_strip (asc ''feat'' @ asc '': '' @ action_added @ label_login @ suffix_feature)
          = asc ''feat'' @ asc '': '' @ action_added @ label_login @ suffix_feature"
    by (rule py_strip_id)
       (simp_all add: asc_def action_added_def label_login_def suffix_feature_def is_space_def)
  then show ?thesis
    by (simp add: compact_subject_def Let_def)
       (simp add: asc_def action_added_def label_login_def suffix_feature_def)
qed

text \<open>
  C2 (as amended). For the change set of the single added file
  \<^verbatim>\<open>mobile-app/auth/login.tsx\<close> and no hint, the type is \<^verbatim>\<open>feat\<close>, the object is
  the label of \<^verbatim>\<open>login\<close> (U+767B U+5F55): \<^verbatim>\<open>login\<close> and \<^verbatim>\<open>auth\<close> both score 3, and
  \<^verbatim>\<open>login\<close> comes first in the keyword list. The area is the display name of
  \<^verbatim>\<open>mobile-app\<close>, and the subject, \<^verbatim>\<open>feat: \<close> followed by the action, the label and the
  feature suffix, ends in the feature suffix.
\<close>

theorem scenario_b_classification:
  "infer_type (map path scenario_b) None = asc ''feat''
   \<and> infer_object scenario_b = Some label_login
   \<and> dominant_area (map path scenario_b) = display_name (asc ''mobile-app'')
   \<and> build_message scenario_b_env (asc ''/repo'') True None
       = Inr (asc ''feat: '' @ action_added @ label_login @ suffix_feature,
              asc ''- A mobile-app/auth/login.tsx'')
   \<and> endswith (asc ''feat: '' @ action_added @ label_login @ suffix_feature) suffix_feature"
proof -
  have area: "display_name (asc ''mobile-app'') = [31227, 21160, 31471]"
    by (simp add: display_name_def area_mapping_def asc_def)
  have action: "infer_action (map status scenario_b) = action_added"
    by (simp add: scenario_b_def infer_action_def)
  have stat: "shortstat scenario_b_env (asc ''/repo'') True = Inr []"
    by (simp add: shortstat_def scenario_b_env_def utf8_decode_def py_strip_def)
  have body: "py_strip (join_lines (body_lines [] scenario_b)) = asc ''- A mobile-app/auth/login.tsx''"
    by (simp add: body_lines_def scenario_b_def file_line_def max_files_def py_strip_def
        is_space_def asc_def)
  have ne: "map path scenario_b \<noteq> []" by (simp add: scenario_b_def)
  have "build_message scenario_b_env (asc ''/repo'') True None
       = Inr (asc ''feat: '' @ action_added @ label_login @ suffix_feature,
              asc ''- A mobile-app/auth/login.tsx'')"
    unfolding build_message_def Let_def scenario_b_read
    using ne
    by (simp add: scenario_b_type scenario_b_object scenario_b_area action
        scenario_b_summary scenario_b_subject stat body)
  moreover have "endswith (asc ''feat: '' @ action_added @ label_login @ suffix_feature) suffix_feature"
    by (simp add: endswith_def)
  ultimately show ?thesis
    by (simp add: scenario_b_type scenario_b_object scenario_b_area area)
qed

text \<open>C2 as stated fails: the object of scenario B is not the label of \<^verbatim>\<open>auth\<close>
  (U+8BA4 U+8BC1).\<close>

theorem scenario_b_object_counterexample:
  "infer_object [\<lparr>status = asc ''A'', path = asc ''mobile-app/auth/login.tsx''\<rparr>]
     \<noteq> Some label_auth"
  using scenario_b_object
  by (simp add: scenario_b_def label_login_def label_auth_def)

lemma contains_nonempty: "contains k h \<Longrightarrow> k \<noteq> [] \<Longrightarrow> h \<noteq> []"
  by (cases h) auto

text \<open>
  C6. A hint that contains one of the defect keywords makes \<^verbatim>\<open>_infer_type\<close> return
  \<^verbatim>\<open>fix\<close> whatever the paths are: the hint is looked at first, so it also wins over
  a change set of documentation files only.
\<close>

theorem defect_hint_gives_fix:
  assumes "k \<in> set defect_keywords" and "contains k h"
  shows "infer_type paths (Some h) = asc ''fix''"
proof -
  have "k \<noteq> []" using assms(1) by (auto simp: defect_keywords_def asc_def)
  with assms(2) have "h \<noteq> []" using contains_nonempty by blast
  moreover have "list_ex (\<lambda>k. contains k h) defect_keywords"
    using assms by (auto simp: list_ex_iff)
  ultimately show ?thesis
    by (simp add: infer_type_def hint_names_defect_def)
qed

theorem defect_hint_gives_fix_witness:
  "[20462, 22797] \<in> set defect_keywords
   \<and> contains [20462, 22797] ([20462, 22797] @ asc '' typo'')
   \<and> is_docs_only [asc ''docs/guide.md'', asc ''README.md'']
   \<and> infer_type [asc ''docs/guide.md'', asc ''README.md''] None = asc ''docs''
   \<and> infer_type [asc ''docs/guide.md'', asc ''README.md''] (Some ([20462, 22797] @ asc '' typo''))
       = asc ''fix''"
  using defect_hint_gives_fix [of "[20462, 22797]" "[20462, 22797] @ asc '' typo''"
      "[asc ''docs/guide.md'', asc ''README.md'']"]
  by (simp add: defect_keywords_def startswith_def infer_type_def hint_names_defect_def
      is_docs_only_def endswith_def py_lower_def lower_cp_def asc_def)





lemma build_message_empty:
  "read_changes env repo_root cached = Inr [] \<Longrightarrow>
   build_message env repo_root cached user_hint = Inl no_changes"
  by (simp add: build_message_def)

text \<open>
  C4. With an empty change set \<^verbatim>\<open>build_message\<close> raises
  \<^verbatim>\<open>RuntimeError("no changes to summarize")\<close> and returns neither subject nor body; the
  entry point then prints that text on the error stream, prints nothing on the standard
  output, and returns exit code 3.
\<close>

theorem empty_change_set_fails:
  assumes "read_changes env repo_root cached = Inr []"
  shows "build_message env repo_root cached user_hint = Inl no_changes
         \<and> (\<not> (arg_cached args \<and> arg_worktree args)
              \<and> get_repo_root env = Inr repo_root \<and> cached = (\<not> arg_worktree args)
            \<longrightarrow> main (Parsed args) env
                  = \<lparr>exit_code = 3, stdout = [],
                     stderr = [Line (asc ''no changes to summarize'')]\<rparr>)"
  using build_message_empty [OF assms]
  by (auto simp: main_def no_changes_def)

theorem empty_change_set_fails_witness:
  "read_changes clean_env (asc ''/repo'') True = Inr []
   \<and> get_repo_root clean_env = Inr (asc ''/repo'')
   \<and> build_message clean_env (asc ''/repo'') True None = Inl no_changes
   \<and> main (Parsed plain_args) clean_env
       = \<lparr>exit_code = 3, stdout = [], stderr = [Line (asc ''no changes to summarize'')]\<rparr>"
proof -
  have r: "read_changes clean_env (asc ''/repo'') True = Inr []"
    by (simp add: read_changes_def list_changed_files_def clean_env_def example_env_def
        parse_z_pairs_def loop_done)
  have g: "get_repo_root clean_env = Inr (asc ''/repo'')"
    by (simp add: get_repo_root_def clean_env_def example_env_def utf8_decode_def py_strip_def
        is_space_def asc_def)
  show ?thesis
    using empty_change_set_fails [OF r, of None plain_args] r g
    by (simp add: plain_args_def)
qed

lemma length_slice_to: "0 \<le> limit \<Longrightarrow> int (length (slice_to s limit)) \<le> limit"
  by (simp add: slice_to_def)

lemma compact_subject_length:
  "0 \<le> limit \<Longrightarrow> int (length (compact_subject prefix summary limit)) \<le> limit"
  by (simp add: compact_subject_def Let_def length_slice_to)

lemma py_replace_Nil: "old \<noteq> [] \<Longrightarrow> py_replace old new [] = []"
  by (subst py_replace.simps) simp

lemma py_replace_self: "old \<noteq> [] \<Longrightarrow> py_replace old new old = new"
  by (subst py_replace.simps) (simp add: startswith_def py_replace_Nil)

lemma py_replace_skip:
  "old \<noteq> [] \<Longrightarrow> hd old \<notin> set s \<Longrightarrow> py_replace old new (s @ t) = s @ py_replace old new t"
proof (induction s)
  case Nil
  then show ?case by simp
next
  case (Cons c s)
  have "\<not> startswith (c # s @ t) old"
    using Cons.prems by (cases old) (auto simp: startswith_def)
  then have "py_replace old new ((c # s) @ t) = c # py_replace old new (s @ t)"
    using Cons.prems(1) by (subst py_replace.simps) simp
  then show ?case using Cons by simp
qed

lemma strip_suffix_words:
  assumes "21151 \<notin> set s" and "39029 \<notin> set s"
  shows "py_replace suffix_page [] (py_replace suffix_feature [] (s @ suffix_feature)) = s"
    and "py_replace suffix_page [] (py_replace suffix_feature [] (s @ suffix_page)) = s"
proof -
  have f: "suffix_feature \<noteq> []" "hd suffix_feature = 21151"
    and g: "suffix_page \<noteq> []" "hd suffix_page = 39029"
    by (simp_all add: suffix_feature_def suffix_page_def)
  have "py_replace suffix_feature [] (s @ suffix_feature) = s"
    using py_replace_skip [OF f(1), of s "[]" suffix_feature] assms(1) f
    by (simp add: py_replace_self)
  moreover have "py_replace suffix_page [] s = s"
    using py_replace_skip [OF g(1), of s "[]" "[]"] assms(2) g
    by (simp add: py_replace_Nil)
  ultimately show "py_replace suffix_page [] (py_replace suffix_feature [] (s @ suffix_feature)) = s"
    by simp
  have "hd suffix_feature \<notin> set (s @ suffix_page)"
    using assms(1) by (simp add: suffix_feature_def suffix_page_def)
  then have "py_replace suffix_feature [] (s @ suffix_page) = s @ suffix_page"
    using py_replace_skip [OF f(1), of "s @ suffix_page" "[]" "[]"]
    by (simp add: py_replace_Nil f(1))
  moreover have "py_replace suffix_page [] (s @ suffix_page) = s"
    using py_replace_skip [OF g(1), of s "[]" suffix_page] assms(2) g
    by (simp add: py_replace_self)
  ultimately show "py_replace suffix_page [] (py_replace suffix_feature [] (s @ suffix_page)) = s"
    by simp
qed

text \<open>
  C5. \<^verbatim>\<open>_compact_subject\<close> returns a subject of at most \<open>limit\<close> code points for every
  prefix and summary (for the cap 50 in particular, and so does \<^verbatim>\<open>build_message\<close> for
  every hint): a subject within the limit is returned as it is; otherwise the subject
  built from the summary without the two suffix words is returned if that one is within
  the limit; otherwise the first \<open>limit\<close> code points of the subject. Taking out the
  two suffix words turns a summary that ends in the feature word (U+529F U+80FD) or in
  the page word (U+9875 U+9762), and has the first code point of neither before that,
  into the summary without that word, so such a summary that is over the limit by no
  more than the word gives the subject without the word. It is a total function: no
  input makes it raise.
\<close>

theorem subject_within_limit:
  "(0 \<le> limit \<longrightarrow> int (length (compact_subject prefix summary limit)) \<le> limit)
   \<and> length (compact_subject prefix summary 50) \<le> 50
   \<and> (int (length (py_strip (prefix @ asc '': '' @ summary))) \<le> limit \<longrightarrow>
        compact_subject prefix summary limit = py_strip (prefix @ asc '': '' @ summary))
   \<and> (0 \<le> limit
        \<and> limit < int (length (py_strip (prefix @ asc '': '' @ summary)))
        \<and> limit < int (length (py_strip (prefix @ asc '': ''
              @ py_replace suffix_page [] (py_replace suffix_feature [] summary)))) \<longrightarrow>
        compact_subject prefix summary limit
          = take (nat limit) (py_strip (prefix @ asc '': '' @ summary)))
   \<and> (limit < int (length (py_strip (prefix @ asc '': '' @ summary)))
        \<and> int (length (py_strip (prefix @ asc '': ''
              @ py_replace suffix_page [] (py_replace suffix_feature [] summary)))) \<le> limit \<longrightarrow>
        compact_subject prefix summary limit
          = py_strip (prefix @ asc '': ''
              @ py_replace suffix_page [] (py_replace suffix_feature [] summary)))
   \<and> (21151 \<notin> set s \<and> 39029 \<notin> set s \<longrightarrow>
        py_replace suffix_page [] (py_replace suffix_feature [] (s @ suffix_feature)) = s
        \<and> py_replace suffix_page [] (py_replace suffix_feature [] (s @ suffix_page)) = s)
   \<and> (21151 \<notin> set s \<and> 39029 \<notin> set s
        \<and> limit < int (length (py_strip (prefix @ asc '': '' @ s @ suffix_feature)))
        \<and> int (length (py_strip (prefix @ asc '': '' @ s))) \<le> limit \<longrightarrow>
        compact_subject prefix (s @ suffix_feature) limit = py_strip (prefix @ asc '': '' @ s))
   \<and> (build_message env repo_root cached user_hint = Inr (subject, body) \<longrightarrow>
        length subject \<le> 50)"
proof (intro conjI impI)
  show "length (compact_subject prefix summary 50) \<le> 50"
    using compact_subject_length [of 50 prefix summary] by simp
next
  assume "build_message env repo_root cached user_hint = Inr (subject, body)"
  then obtain ct sm where "subject = compact_subject ct sm 50"
    by (auto simp: build_message_def Let_def split: sum.splits if_splits)
  then show "length subject \<le> 50"
    using compact_subject_length [of 50 ct sm] by simp
next
  assume "21151 \<notin> set s \<and> 39029 \<notin> set s"
  then show "py_replace suffix_page [] (py_replace suffix_feature [] (s @ suffix_feature)) = s"
    and "py_replace suffix_page [] (py_replace suffix_feature [] (s @ suffix_page)) = s"
    by (simp_all add: strip_suffix_words)
next
  assume a: "21151 \<notin> set s \<and> 39029 \<notin> set s
        \<and> limit < int (length (py_strip (prefix @ asc '': '' @ s @ suffix_feature)))
        \<and> int (length (py_strip (prefix @ asc '': '' @ s))) \<le> limit"
  then have "py_replace suffix_page [] (py_replace suffix_feature [] (s @ suffix_feature)) = s"
    by (simp add: strip_suffix_words)
  with a show "compact_subject prefix (s @ suffix_feature) limit
                 = py_strip (prefix @ asc '': '' @ s)"
    by (simp add: compact_subject_def Let_def)
qed (simp_all add: compact_subject_def Let_def slice_to_def)

lemma subject_stripped_eval:
  "compact_subject (asc ''feat'')
      (asc ''add password reset with a mail confirmation'' @ suffix_feature) 50
     = asc ''feat: add password reset with a mail confirmation''"
  by (simp add: compact_subject_def Let_def py_strip_def is_space_def slice_to_def
      suffix_feature_def suffix_page_def py_replace.simps startswith_def asc_def)

lemma subject_witness_eval:
  "compact_subject (asc ''feat'') (asc ''rewrite the login '' @ suffix_feature) 12
     = asc ''feat: rewrit''"
  by (simp add: compact_subject_def Let_def py_strip_def is_space_def slice_to_def
      suffix_feature_def suffix_page_def py_replace.simps startswith_def asc_def)

lemma example_read:
  "read_changes example_env (asc ''/repo'') True
     = Inr [\<lparr>status = asc ''R'', path = asc ''new.txt''\<rparr>,
            \<lparr>status = asc ''M'', path = asc ''a.py''\<rparr>]"
proof -
  have "list_changed_files example_env (asc ''/repo'') True =
          Inr (map (\<lambda>r. normalize (map_diff_record utf8_decode r)) example_records)"
    by (rule reader_on_records)
       (simp_all add: example_env_def example_records_def NUL_def utf8_decode_def
          rename_or_copy_def startswith_def asc_def)
  then show ?thesis
    by (simp add: read_changes_def example_records_def utf8_decode_def asc_def)
qed

lemma long_hint_subject:
  "\<exists>body. build_message example_env (asc ''/repo'') True (Some long_hint)
     = Inr (asc ''feat: rewrite the whole login flow and all of its '', body)"
proof -
  have ty: "infer_type [asc ''new.txt'', asc ''a.py''] (Some long_hint) = asc ''feat''"
    by (simp add: long_hint_def infer_type_def hint_names_defect_def defect_keywords_def
      is_docs_only_def
      is_test_only_def is_chore_only_def test_patterns_def ends_dollar_def endswith_def
      startswith_def dir_here_def at_dollar_def allow_def py_lower_def lower_cp_def
      slash_def newline_def asc_def)
  have strip: "py_strip long_hint = long_hint"
    by (rule py_strip_id) (simp_all add: long_hint_def is_space_def asc_def)
  have sm: "summary_of ct area obj action (Some long_hint) paths = long_hint" for ct area obj action paths
    using strip by (simp add: summary_of_def) (simp add: long_hint_def asc_def)
  have "py_strip (asc ''feat'' @ asc '': '' @ long_hint) = asc ''feat'' @ asc '': '' @ long_hint"
    by (rule py_strip_id) (simp_all add: long_hint_def is_space_def asc_def)
  then have sub: "compact_subject (asc ''feat'') long_hint 50
      = asc ''feat: rewrite the whole login flow and all of its ''"
    by (simp add: compact_subject_def Let_def)
       (simp add: long_hint_def slice_to_def suffix_feature_def suffix_page_def
          py_replace.simps startswith_def py_strip_def is_space_def asc_def)
  have st: "\<exists>stat. shortstat example_env (asc ''/repo'') True = Inr stat"
    by (simp add: shortstat_def example_env_def)
  show ?thesis
    using st by (auto simp: build_message_def Let_def example_read ty sm sub)
qed

theorem subject_within_limit_witness:
  "(0::int) \<le> 12
   \<and> compact_subject (asc ''feat'') (asc ''rewrite the login '' @ suffix_feature) 12
       = asc ''feat: rewrit''
   \<and> int (length (compact_subject (asc ''feat'') (asc ''rewrite the login '' @ suffix_feature) 12))
       \<le> 12
   \<and> length (asc ''feat: add password reset with a mail confirmation'' @ suffix_feature) = 51
   \<and> compact_subject (asc ''feat'')
         (asc ''add password reset with a mail confirmation'' @ suffix_feature) 50
       = asc ''feat: add password reset with a mail confirmation''
   \<and> length (asc ''feat: add password reset with a mail confirmation'') = 49
   \<and> (\<exists>body. build_message example_env (asc ''/repo'') True (Some long_hint)
         = Inr (asc ''feat: rewrite the whole login flow and all of its '', body))
   \<and> length (asc ''feat: rewrite the whole login flow and all of its '') = 50"
proof -
  have "(0::int) \<le> 12
   \<and> compact_subject (asc ''feat'') (asc ''rewrite the login '' @ suffix_feature) 12
       = asc ''feat: rewrit''
   \<and> int (length (compact_subject (asc ''feat'') (asc ''rewrite the login '' @ suffix_feature) 12))
       \<le> 12"
    using subject_within_limit [where limit = 12 and prefix = "asc ''feat''"
        and summary = "asc ''rewrite the login '' @ suffix_feature"]
    by (simp add: subject_witness_eval)
  moreover have "compact_subject (asc ''feat'')
         (asc ''add password reset with a mail confirmation'' @ suffix_feature) 50
       = asc ''feat: add password reset with a mail confirmation''"
    using subject_within_limit [where limit = 50 and prefix = "asc ''feat''"
        and s = "asc ''add password reset with a mail confirmation''"]
    by (simp add: py_strip_def is_space_def suffix_feature_def asc_def)
  moreover have "length (asc ''feat: rewrite the whole login flow and all of its '') = 50"
      "length (asc ''feat: add password reset with a mail confirmation'' @ suffix_feature) = 51"
      "length (asc ''feat: add password reset with a mail confirmation'') = 49"
    by (simp_all add: asc_def suffix_feature_def)
  ultimately show ?thesis
    using long_hint_subject by blast
qed

lemma join_lines_Cons: "ls \<noteq> [] \<Longrightarrow> join_lines (l # ls) = l @ [newline] @ join_lines ls"
  by (cases ls) simp_all

lemma hd_join_lines: "l \<noteq> [] \<Longrightarrow> hd (join_lines (l # ls)) = hd l"
  by (cases ls) simp_all

lemma join_lines_nonempty: "l \<noteq> [] \<Longrightarrow> join_lines (ls @ [l]) \<noteq> []"
  by (induction ls) (simp_all add: join_lines_Cons)

lemma last_join_lines: "l \<noteq> [] \<Longrightarrow> last (join_lines (ls @ [l])) = last l"
  by (induction ls) (simp_all add: join_lines_Cons join_lines_nonempty)


lemma join_lines_snoc:
  "join_lines (ls @ [l]) = concat (map (\<lambda>x. x @ [10]) ls) @ l"
  by (induction ls) (simp_all add: join_lines_Cons newline_def)

lemma more_line_3:
  "more_line 3 = [45, 32, 46, 46, 46, 32, 20197, 21450, 21478, 22806, 32, 51, 32,
                  20010, 25991, 20214]"
  by (simp add: more_line_def py_str_nat.simps asc_def)

lemma file_line_modified:
  "status c = asc ''M'' \<Longrightarrow> file_line c = asc ''- M '' @ path c"
  by (simp add: file_line_def asc_def)

lemma body_lines_fifteen:
  assumes "length changed = 15"
    and "list_all (\<lambda>c. status c = asc ''M'' \<and> startswith (path c) (asc ''backend/'')) changed"
  shows "body_lines stat changed =
           (if stat \<noteq> [] then [stat_line stat] else [])
           @ map (\<lambda>c. asc ''- M '' @ path c) (take 12 changed) @ [more_line 3]"
proof -
  have "map file_line (take 12 changed) = map (\<lambda>c. asc ''- M '' @ path c) (take 12 changed)"
    using assms(2) by (auto simp: list_all_iff file_line_modified dest: in_set_takeD)
  then show ?thesis
    using assms(1) by (simp add: body_lines_def max_files_def)
qed

lemma strip_body_fifteen:
  assumes "length changed = 15"
    and "list_all (\<lambda>c. status c = asc ''M'' \<and> startswith (path c) (asc ''backend/'')) changed"
  shows "py_strip (join_lines (body_lines stat changed)) = join_lines (body_lines stat changed)"
proof -
  let ?files = "map (\<lambda>c. asc ''- M '' @ path c) (take 12 changed)"
  let ?front = "(if stat \<noteq> [] then [stat_line stat] else []) @ ?files"
  have lines: "body_lines stat changed = ?front @ [more_line 3]"
    using body_lines_fifteen [OF assms] by simp
  have more: "more_line 3 \<noteq> []" "last (more_line 3) = 20214" "hd (more_line 3) = 45"
    by (simp_all add: more_line_3)
  have "take 12 changed \<noteq> []" using assms(1) by auto
  then obtain c cs where cs: "take 12 changed = c # cs" by (cases "take 12 changed") auto
  have "\<exists>l ls. ?front @ [more_line 3] = l # ls \<and> l \<noteq> [] \<and> hd l = 45"
    by (simp add: cs stat_line_def asc_def)
  then obtain l ls where l: "?front @ [more_line 3] = l # ls" "l \<noteq> []" "hd l = 45"
    by blast
  have "hd (join_lines (body_lines stat changed)) = 45"
    using l hd_join_lines [of l ls] by (simp add: lines)
  moreover have "last (join_lines (body_lines stat changed)) = 20214"
    using last_join_lines [OF more(1), of ?front] more(2) by (simp add: lines)
  moreover have "join_lines (body_lines stat changed) \<noteq> []"
    using join_lines_nonempty [OF more(1), of ?front] by (simp add: lines)
  ultimately show ?thesis
    by (intro py_strip_id) (simp_all add: is_space_def)
qed

lemma more_line_3_text:
  "more_line 3 = asc ''- ... '' @ [20197, 21450, 21478, 22806] @ asc '' 3 '' @ [20010, 25991, 20214]"
  by (simp add: more_line_3 asc_def)

text \<open>
  C8 (as amended). For a change set of fifteen modified files under \<^verbatim>\<open>backend/\<close> and no
  hint, the lines of the body are: the statistics line if git reported one, then exactly
  twelve file lines, one for each of the first twelve entries in the order of the change
  set, each of them a hyphen, a space, the status \<^verbatim>\<open>M\<close>, a space and the path, then
  exactly one last line saying that 3 more files exist. The body that
  \<^verbatim>\<open>build_message\<close> returns is these lines in this order, every line but the last
  followed by a newline.
\<close>

theorem fifteen_files_body:
  assumes "read_changes env repo_root cached = Inr changed"
    and "length changed = 15"
    and "list_all (\<lambda>c. status c = asc ''M'' \<and> startswith (path c) (asc ''backend/'')) changed"
    and "shortstat env repo_root cached = Inr stat"
  shows "body_lines stat changed =
           (if stat \<noteq> [] then [[45, 32, 32479, 35745, 65306] @ stat] else [])
           @ map (\<lambda>c. asc ''- M '' @ path c) (take 12 changed)
           @ [asc ''- ... '' @ [20197, 21450, 21478, 22806] @ asc '' 3 '' @ [20010, 25991, 20214]]
         \<and> length (map (\<lambda>c. asc ''- M '' @ path c) (take 12 changed)) = 12
         \<and> (\<exists>subject. build_message env repo_root cached None
              = Inr (subject,
                     (if stat \<noteq> [] then [45, 32, 32479, 35745, 65306] @ stat @ [10] else [])
                     @ concat (map (\<lambda>c. asc ''- M '' @ path c @ [10]) (take 12 changed))
                     @ asc ''- ... '' @ [20197, 21450, 21478, 22806] @ asc '' 3 '' @ [20010, 25991, 20214]))"
proof -
  have lines: "body_lines stat changed =
           (if stat \<noteq> [] then [[45, 32, 32479, 35745, 65306] @ stat] else [])
           @ map (\<lambda>c. asc ''- M '' @ path c) (take 12 changed)
           @ [asc ''- ... '' @ [20197, 21450, 21478, 22806] @ asc '' 3 '' @ [20010, 25991, 20214]]"
    using body_lines_fifteen [OF assms(2,3), of stat]
    by (simp add: stat_line_def more_line_3_text)
  have "join_lines (body_lines stat changed) =
          (if stat \<noteq> [] then [45, 32, 32479, 35745, 65306] @ stat @ [10] else [])
          @ concat (map (\<lambda>c. asc ''- M '' @ path c @ [10]) (take 12 changed))
          @ asc ''- ... '' @ [20197, 21450, 21478, 22806] @ asc '' 3 '' @ [20010, 25991, 20214]"
    unfolding lines
      join_lines_snoc [of "(if stat \<noteq> [] then [[45, 32, 32479, 35745, 65306] @ stat] else [])
           @ map (\<lambda>c. asc ''- M '' @ path c) (take 12 changed)", simplified append_assoc]
    by (simp add: comp_def)
  moreover have "changed \<noteq> []" using assms(2) by auto
  ultimately have "\<exists>subject. build_message env repo_root cached None
              = Inr (subject,
                     (if stat \<noteq> [] then [45, 32, 32479, 35745, 65306] @ stat @ [10] else [])
                     @ concat (map (\<lambda>c. asc ''- M '' @ path c @ [10]) (take 12 changed))
                     @ asc ''- ... '' @ [20197, 21450, 21478, 22806] @ asc '' 3 '' @ [20010, 25991, 20214])"
    using assms(1,4) strip_body_fifteen [OF assms(2,3), of stat]
    by (simp add: build_message_def Let_def)
  with lines show ?thesis
    using assms(2) by simp
qed

lemma scenario_c_read: "read_changes scenario_c_env (asc ''/repo'') True = Inr scenario_c"
proof -
  have "list_changed_files scenario_c_env (asc ''/repo'') True =
          Inr (map (\<lambda>r. normalize (map_diff_record utf8_decode r)) scenario_c_records)"
  proof (rule reader_on_records)
    show "git_diff_name_status scenario_c_env (asc ''/repo'') True =
            Inr (concat (map (\<lambda>f. f @ [NUL]) (concat (map fields scenario_c_records))))"
      by (simp add: scenario_c_env_def)
    show "\<forall>r\<in>set scenario_c_records. \<forall>f\<in>set (fields r). NUL \<notin> set f"
      by (simp add: scenario_c_records_def NUL_def)
    show "list_all well_formed (map (map_diff_record utf8_decode) scenario_c_records)"
      by (simp add: scenario_c_records_def utf8_decode_def rename_or_copy_def startswith_def
          asc_def)
  qed
  then show ?thesis
    by (simp add: read_changes_def scenario_c_def)
qed

lemma scenario_c_stat:
  "shortstat scenario_c_env (asc ''/repo'') True = Inr (asc ''15 files changed, 30 insertions(+)'')"
  by (simp add: shortstat_def scenario_c_env_def utf8_decode_def py_strip_def is_space_def
      asc_def)

lemma scenario_c_eq:
  "scenario_c =
     map (\<lambda>c. \<lparr>status = [77], path = [98, 97, 99, 107, 101, 110, 100, 47, c, 46, 112, 121]\<rparr>)
       [97, 98, 99, 100, 101, 102, 103, 104, 105, 106, 107, 108, 109, 110, 111]"
  by (simp add: scenario_c_def scenario_c_records_def utf8_decode_def)

lemma scenario_c_facts:
  "length scenario_c = 15"
  "list_all (\<lambda>c. status c = asc ''M'' \<and> startswith (path c) (asc ''backend/'')) scenario_c"
  by (simp_all add: scenario_c_eq startswith_def asc_def)

lemma more_line_Suc3: "more_line (Suc (Suc (Suc 0))) = more_line 3"
  by (simp add: numeral_3_eq_3)

lemma scenario_c_body_lines:
  "body_lines (asc ''15 files changed, 30 insertions(+)'') scenario_c = scenario_c_lines"
  by (simp add: body_lines_def max_files_def stat_line_def file_line_def more_line_Suc3
      more_line_3 scenario_c_lines_def scenario_c_eq asc_def)

lemma scenario_c_join: "join_lines scenario_c_lines = scenario_c_body"
  by (simp add: scenario_c_lines_def scenario_c_body_def newline_def)

lemma fold_without_hit:
  "list_all (\<lambda>(p, st). \<not> contains needle p) items \<Longrightarrow>
   fold (\<lambda>(p, st) score. if contains needle p then add_score l (weight_of st) score else score)
        items score = score"
  by (induction items arbitrary: score) auto

lemma score_items_without_hit:
  assumes "list_all (\<lambda>(needle, l). list_all (\<lambda>(p, st). \<not> contains needle p) items)
             keyword_table"
  shows "score_items items = []"
proof -
  have "list_all (\<lambda>(needle, l). list_all (\<lambda>(p, st). \<not> contains needle p) items) kws \<Longrightarrow>
        fold (\<lambda>(needle, l) score.
                fold (\<lambda>(p, st) score.
                        if contains needle p then add_score l (weight_of st) score else score)
                     items score)
             kws score = score" for kws score
    by (induction kws arbitrary: score) (auto simp: fold_without_hit)
  from this [OF assms] show ?thesis by (simp add: score_items_def)
qed

lemma scenario_c_message:
  "build_message scenario_c_env (asc ''/repo'') True None
     = Inr (scenario_c_subject, scenario_c_body)"
proof -
  have ne: "map path scenario_c \<noteq> []"
    by (simp add: scenario_c_eq)
  have ty: "infer_type (map path scenario_c) None = asc ''feat''"
    by (simp add: scenario_c_eq
      infer_type_def hint_names_defect_def is_docs_only_def
      is_test_only_def is_chore_only_def test_patterns_def ends_dollar_def endswith_def
      startswith_def dir_here_def at_dollar_def allow_def py_lower_def lower_cp_def
      slash_def newline_def asc_def)
  have area: "dominant_area (map path scenario_c) = [21518, 31471]"
    by (simp add: scenario_c_eq
      dominant_area_def tally_def top_segment_def display_name_def
      area_mapping_def slash_def asc_def)
  have "priority_phase scenario_c = None"
    by (simp add: scenario_c_eq startswith_def py_lower_def lower_cp_def asc_def)
  moreover have "keyword_scores scenario_c = []"
    unfolding keyword_scores_def
    by (rule score_items_without_hit)
       (simp add: scenario_c_eq keyword_table_def startswith_def py_lower_def lower_cp_def
          label_login_def label_auth_def label_about_def label_privacy_def asc_def)
  ultimately have obj: "infer_object scenario_c = None"
    by (simp add: infer_object_def)
  have act: "infer_action (map status scenario_c) = action_updated"
    by (simp add: scenario_c_eq infer_action_def asc_def)
  have sm: "summary_of (asc ''feat'') [21518, 31471] None action_updated None
              (map path scenario_c) = action_updated @ [21518, 31471] @ suffix_changes"
    by (simp add: summary_of_def)
  have "py_strip (asc ''feat'' @ asc '': '' @ action_updated @ [21518, 31471] @ suffix_changes)
          = asc ''feat'' @ asc '': '' @ action_updated @ [21518, 31471] @ suffix_changes"
    by (rule py_strip_id)
       (simp_all add: asc_def action_updated_def suffix_changes_def is_space_def)
  then have sub: "compact_subject (asc ''feat'')
                    (action_updated @ [21518, 31471] @ suffix_changes) 50 = scenario_c_subject"
    by (simp add: compact_subject_def Let_def)
       (simp add: asc_def action_updated_def suffix_changes_def scenario_c_subject_def)
  have body: "py_strip (join_lines (body_lines (asc ''15 files changed, 30 insertions(+)'')
                scenario_c)) = scenario_c_body"
    using strip_body_fifteen [OF scenario_c_facts, of "asc ''15 files changed, 30 insertions(+)''"]
    by (simp add: scenario_c_body_lines scenario_c_join)
  have "build_message scenario_c_env (asc ''/repo'') True None
          = Inr (compact_subject (asc ''feat'')
                   (summary_of (asc ''feat'') [21518, 31471] None action_updated None
                      (map path scenario_c)) 50,
                 py_strip (join_lines (body_lines (asc ''15 files changed, 30 insertions(+)'')
                   scenario_c)))"
    unfolding build_message_def Let_def scenario_c_read
    using ne by (simp add: ty area obj act scenario_c_stat)
  then show ?thesis
    by (simp only: sm sub body)
qed

theorem fifteen_files_body_witness:
  "read_changes scenario_c_env (asc ''/repo'') True = Inr scenario_c
   \<and> length scenario_c = 15
   \<and> list_all (\<lambda>c. status c = asc ''M'' \<and> startswith (path c) (asc ''backend/'')) scenario_c
   \<and> shortstat scenario_c_env (asc ''/repo'') True
       = Inr (asc ''15 files changed, 30 insertions(+)'')
   \<and> body_lines (asc ''15 files changed, 30 insertions(+)'') scenario_c = scenario_c_lines
   \<and> length scenario_c_lines = 14
   \<and> build_message scenario_c_env (asc ''/repo'') True None
       = Inr (scenario_c_subject, scenario_c_body)"
proof -
  note t = fifteen_files_body [OF scenario_c_read scenario_c_facts scenario_c_stat]
  have ne: "asc ''15 files changed, 30 insertions(+)'' \<noteq> []"
    by (simp add: asc_def)
  from t ne have "body_lines (asc ''15 files changed, 30 insertions(+)'') scenario_c =
      [[45, 32, 32479, 35745, 65306] @ asc ''15 files changed, 30 insertions(+)'']
      @ map (\<lambda>c. asc ''- M '' @ path c) (take 12 scenario_c)
      @ [asc ''- ... '' @ [20197, 21450, 21478, 22806] @ asc '' 3 '' @ [20010, 25991, 20214]]"
    by simp
  also have "\<dots> = scenario_c_lines"
    by (simp add: scenario_c_lines_def scenario_c_eq asc_def)
  finally have lines: "body_lines (asc ''15 files changed, 30 insertions(+)'') scenario_c
                         = scenario_c_lines" .
  have "length scenario_c_lines = 14" by (simp add: scenario_c_lines_def)
  with lines show ?thesis
    using scenario_c_read scenario_c_facts scenario_c_stat scenario_c_message by simp
qed

text \<open>
  C8 as stated fails: in scenario C no line of the body is the status, a space and the
  path; the line of the first file starts with a hyphen and a space.
\<close>

theorem fifteen_files_line_format_counterexample:
  "build_message scenario_c_env (asc ''/repo'') True None
     = Inr (scenario_c_subject, scenario_c_body)
   \<and> split_on 10 scenario_c_body = scenario_c_lines
   \<and> scenario_c_lines ! 1 = asc ''- M backend/a.py''
   \<and> asc ''M backend/a.py'' \<notin> set scenario_c_lines"
proof -
  have "split_on 10 scenario_c_body = scenario_c_lines"
    by (simp add: scenario_c_body_def scenario_c_lines_def asc_def)
  moreover have "scenario_c_lines ! 1 = asc ''- M backend/a.py''"
    by (simp add: scenario_c_lines_def)
  moreover have "asc ''M backend/a.py'' \<notin> set scenario_c_lines"
    by (simp add: scenario_c_lines_def asc_def)
  ultimately show ?thesis
    using scenario_c_message by simp
qed

lemma first_seen_snoc:
  "first_seen (xs @ [x]) = (if x \<in> set xs then first_seen xs else first_seen xs @ [x])"
  by (simp add: first_seen_def)

lemma set_first_seen: "set (first_seen xs) = set xs"
  by (simp add: first_seen_def)

lemma distinct_first_seen: "distinct (first_seen xs)"
  by (simp add: first_seen_def)

lemma first_index_less: "x \<in> set xs \<Longrightarrow> first_index xs x < length xs"
  unfolding first_index_def by (induction xs) auto

lemma first_index_snoc_old:
  "a \<in> set xs \<Longrightarrow> first_index (xs @ [x]) a = first_index xs a"
  unfolding first_index_def by (simp add: takeWhile_append1)

lemma first_index_snoc_new:
  "x \<notin> set xs \<Longrightarrow> first_index (xs @ [x]) x = length xs"
proof -
  assume "x \<notin> set xs"
  then have "takeWhile (\<lambda>y. y \<noteq> x) (xs @ [x]) = xs @ takeWhile (\<lambda>y. y \<noteq> x) [x]"
    by (intro takeWhile_append2) auto
  then show ?thesis by (simp add: first_index_def)
qed

lemma first_seen_ordered:
  "sorted_wrt (\<lambda>a b. first_index xs a < first_index xs b) (first_seen xs)"
proof (induction xs rule: rev_induct)
  case Nil
  then show ?case by (simp add: first_seen_def)
next
  case (snoc x xs)
  have old: "sorted_wrt (\<lambda>a b. first_index (xs @ [x]) a < first_index (xs @ [x]) b)
               (first_seen xs)"
    using snoc.IH
    by (rule sorted_wrt_mono_rel [rotated]) (simp add: set_first_seen first_index_snoc_old)
  show ?case
  proof (cases "x \<in> set xs")
    case True
    with old show ?thesis by (simp add: first_seen_snoc)
  next
    case False
    have "\<forall>a\<in>set (first_seen xs). first_index (xs @ [x]) a < first_index (xs @ [x]) x"
      using False by (simp add: set_first_seen first_index_snoc_old first_index_snoc_new
          first_index_less)
    with old False show ?thesis by (simp add: first_seen_snoc sorted_wrt_append)
  qed
qed

lemma add_score_keyed:
  "distinct ks \<Longrightarrow>
   add_score x w (map (\<lambda>k. (k, g k)) ks) =
     (if x \<in> set ks then map (\<lambda>k. (k, if k = x then g k + w else g k)) ks
      else map (\<lambda>k. (k, g k)) ks @ [(x, w)])"
  by (induction ks) auto

lemma tally_segments:
  "fold (\<lambda>s counts. add_score s 1 counts) segs [] =
     map (\<lambda>k. (k, count_list segs k)) (first_seen segs)"
proof (induction segs rule: rev_induct)
  case Nil
  then show ?case by (simp add: first_seen_def)
next
  case (snoc x xs)
  have "fold (\<lambda>s counts. add_score s 1 counts) (xs @ [x]) [] =
          add_score x 1 (map (\<lambda>k. (k, count_list xs k)) (first_seen xs))"
    using snoc.IH by simp
  also have "\<dots> = map (\<lambda>k. (k, count_list (xs @ [x]) k)) (first_seen (xs @ [x]))"
  proof (cases "x \<in> set xs")
    case True
    then show ?thesis
      by (simp add: add_score_keyed distinct_first_seen set_first_seen first_seen_snoc)
  next
    case False
    then have "map (\<lambda>k. (k, count_list xs k)) (first_seen xs) =
               map (\<lambda>k. (k, count_list (xs @ [x]) k)) (first_seen xs)"
      by (intro map_cong) (auto simp: set_first_seen)
    with False show ?thesis
      by (simp add: add_score_keyed distinct_first_seen set_first_seen first_seen_snoc)
  qed
  finally show ?case .
qed

lemma tally_eq:
  "tally paths = map (\<lambda>k. (k, count_list (map top_segment paths) k))
                   (first_seen (map top_segment paths))"
proof -
  have "tally paths = fold (\<lambda>s counts. add_score s 1 counts) (map top_segment paths) []"
    by (simp add: tally_def fold_map comp_def)
  also have "\<dots> = map (\<lambda>k. (k, count_list (map top_segment paths) k))
                   (first_seen (map top_segment paths))"
    by (rule tally_segments)
  finally show ?thesis .
qed

lemma max_from_split:
  assumes "\<forall>x\<in>set pre. snd x < snd best" and "\<forall>x\<in>set mid. snd x \<le> snd best"
  shows "\<exists>pre' post'. pre @ best # mid @ rest = pre' @ max_from best rest # post'
           \<and> (\<forall>x\<in>set pre'. snd x < snd (max_from best rest))
           \<and> (\<forall>x\<in>set post'. snd x \<le> snd (max_from best rest))"
  using assms
proof (induction rest arbitrary: pre best mid)
  case Nil
  then show ?case by auto
next
  case (Cons kv rest)
  show ?case
  proof (cases "snd best < snd kv")
    case True
    have "\<forall>x\<in>set (pre @ best # mid). snd x < snd kv"
      using Cons.prems True by fastforce
    from Cons.IH [OF this, of "[]"] show ?thesis using True by simp
  next
    case False
    have "\<forall>x\<in>set (mid @ [kv]). snd x \<le> snd best"
      using Cons.prems False by auto
    from Cons.IH [OF Cons.prems(1) this] show ?thesis using False by simp
  qed
qed

lemma first_maximum_wins:
  assumes "segs \<noteq> []"
  shows "\<exists>kv rest t.
           map (\<lambda>k. (k, count_list segs k)) (first_seen segs) = kv # rest
           \<and> fst (max_from kv rest) = t \<and> t \<in> set segs
           \<and> (\<forall>s\<in>set segs. count_list segs s < count_list segs t
                 \<or> (count_list segs s = count_list segs t
                     \<and> first_index segs t \<le> first_index segs s))"
proof -
  let ?c = "count_list segs"
  let ?L = "map (\<lambda>k. (k, ?c k)) (first_seen segs)"
  have "first_seen segs \<noteq> []" using assms set_first_seen [of segs] by auto
  then obtain kv rest where L: "?L = kv # rest" by (cases ?L) auto
  let ?e = "max_from kv rest"
  from max_from_split [of "[]" kv "[]" rest] obtain pre post where
    split: "kv # rest = pre @ ?e # post"
    and before: "\<forall>x\<in>set pre. snd x < snd ?e"
    and after: "\<forall>x\<in>set post. snd x \<le> snd ?e"
    by auto
  have "?e \<in> set ?L" using L split by simp
  then obtain t where t: "?e = (t, ?c t)" "t \<in> set segs"
    by (auto simp: set_first_seen)
  have keys: "first_seen segs = map fst pre @ t # map fst post"
  proof -
    have "map fst ?L = first_seen segs" by (simp add: comp_def)
    then show ?thesis using L split t by (metis fst_conv list.simps(9) map_append)
  qed
  have later: "\<forall>s\<in>set (map fst post). first_index segs t < first_index segs s"
    using first_seen_ordered [of segs] unfolding keys
    by (simp add: sorted_wrt_append)
  have "\<forall>s\<in>set segs. ?c s < ?c t \<or> (?c s = ?c t \<and> first_index segs t \<le> first_index segs s)"
  proof
    fix s assume "s \<in> set segs"
    then have "(s, ?c s) \<in> set ?L" by (auto simp: set_first_seen)
    then have "(s, ?c s) \<in> set pre \<or> (s, ?c s) = ?e \<or> (s, ?c s) \<in> set post"
      using L split by auto
    then show "?c s < ?c t \<or> (?c s = ?c t \<and> first_index segs t \<le> first_index segs s)"
    proof (elim disjE)
      assume "(s, ?c s) \<in> set pre"
      with before t show ?thesis by fastforce
    next
      assume "(s, ?c s) = ?e"
      with t show ?thesis by simp
    next
      assume p: "(s, ?c s) \<in> set post"
      then have "?c s \<le> ?c t" using after t by fastforce
      moreover have "first_index segs t < first_index segs s"
        using later p by force
      ultimately show ?thesis by auto
    qed
  qed
  with L t show ?thesis by auto
qed

lemma top_segment_takeWhile: "top_segment p = takeWhile (\<lambda>c. c \<noteq> slash) p"
proof (cases "slash \<in> set p")
  case True
  then show ?thesis by (simp add: top_segment_def)
next
  case False
  then have tw: "takeWhile (\<lambda>c. c \<noteq> slash) p = p"
    by (auto simp: takeWhile_eq_all_conv)
  show ?thesis by (simp only: top_segment_def False if_False tw)
qed

lemma display_name_unknown:
  "seg \<noteq> asc ''mobile-app'' \<Longrightarrow> seg \<noteq> asc ''backend'' \<Longrightarrow> seg \<noteq> asc ''docs'' \<Longrightarrow>
   display_name seg = generic_area"
  by (simp add: display_name_def area_mapping_def)

text \<open>
  C7. \<^verbatim>\<open>_dominant_area\<close> counts the top-level segment of every path, which is the
  path up to its first slash, or the whole path if it has none. For a non-empty list of
  paths it returns the display name of a segment \<open>t\<close> that occurs in the list such that
  every segment occurs less often than \<open>t\<close>, or as often as \<open>t\<close> and not before
  \<open>t\<close>: the plurality segment, the first one seen among those with the highest count.
  A segment other than the three known ones has the generic label as display name, and
  the empty list of paths gives the generic label: the function never raises.
\<close>

theorem dominant_area_plurality:
  "top_segment p = takeWhile (\<lambda>c. c \<noteq> slash) p
   \<and> dominant_area [] = generic_area
   \<and> (paths \<noteq> [] \<longrightarrow>
        (\<exists>t\<in>set (map top_segment paths).
            dominant_area paths = display_name t
            \<and> (\<forall>s\<in>set (map top_segment paths).
                  count_list (map top_segment paths) s < count_list (map top_segment paths) t
                  \<or> (count_list (map top_segment paths) s = count_list (map top_segment paths) t
                      \<and> first_index (map top_segment paths) t
                          \<le> first_index (map top_segment paths) s))))
   \<and> (seg \<noteq> asc ''mobile-app'' \<and> seg \<noteq> asc ''backend'' \<and> seg \<noteq> asc ''docs'' \<longrightarrow>
        display_name seg = generic_area)"
proof (intro conjI impI)
  show "top_segment p = takeWhile (\<lambda>c. c \<noteq> slash) p"
    by (rule top_segment_takeWhile)
  show "dominant_area [] = generic_area"
    by (simp add: dominant_area_def tally_def)
next
  assume "paths \<noteq> []"
  then have "map top_segment paths \<noteq> []" by simp
  from first_maximum_wins [OF this] obtain kv rest t where
    L: "tally paths = kv # rest"
    and t: "fst (max_from kv rest) = t" "t \<in> set (map top_segment paths)"
    and best: "\<forall>s\<in>set (map top_segment paths).
                  count_list (map top_segment paths) s < count_list (map top_segment paths) t
                  \<or> (count_list (map top_segment paths) s = count_list (map top_segment paths) t
                      \<and> first_index (map top_segment paths) t
                          \<le> first_index (map top_segment paths) s)"
    unfolding tally_eq [symmetric] by blast
  have "dominant_area paths = display_name t"
    using L t(1) by (simp add: dominant_area_def)
  with t(2) best show "\<exists>t\<in>set (map top_segment paths).
            dominant_area paths = display_name t
            \<and> (\<forall>s\<in>set (map top_segment paths).
                  count_list (map top_segment paths) s < count_list (map top_segment paths) t
                  \<or> (count_list (map top_segment paths) s = count_list (map top_segment paths) t
                      \<and> first_index (map top_segment paths) t
                          \<le> first_index (map top_segment paths) s))"
    by blast
next
  assume "seg \<noteq> asc ''mobile-app'' \<and> seg \<noteq> asc ''backend'' \<and> seg \<noteq> asc ''docs''"
  then show "display_name seg = generic_area"
    by (simp add: display_name_unknown)
qed

lemma area_witness_eval:
  "dominant_area [asc ''docs/a.md'', asc ''backend/x.go'', asc ''backend/y.go'', asc ''docs/b.md'',
                  asc ''Makefile'']
     = [25991, 26723]"
  by (simp add: dominant_area_def tally_def top_segment_def display_name_def area_mapping_def
      slash_def asc_def)

theorem dominant_area_plurality_witness:
  "[asc ''docs/a.md'', asc ''backend/x.go'', asc ''backend/y.go'', asc ''docs/b.md'',
    asc ''Makefile''] \<noteq> []
   \<and> top_segment (asc ''docs/a.md'') = asc ''docs''
   \<and> dominant_area [asc ''docs/a.md'', asc ''backend/x.go'', asc ''backend/y.go'',
                     asc ''docs/b.md'', asc ''Makefile'']
       = display_name (asc ''docs'')
   \<and> display_name (asc ''Makefile'') = generic_area"
proof -
  note t = dominant_area_plurality [of "asc ''docs/a.md''"
      "[asc ''docs/a.md'', asc ''backend/x.go'', asc ''backend/y.go'', asc ''docs/b.md'',
        asc ''Makefile'']" "asc ''Makefile''"]
  have "top_segment (asc ''docs/a.md'') = takeWhile (\<lambda>c. c \<noteq> slash) (asc ''docs/a.md'')"
    using t by (rule conjunct1)
  then have seg: "top_segment (asc ''docs/a.md'') = asc ''docs''"
    by (simp add: slash_def asc_def)
  have "asc ''Makefile'' \<noteq> asc ''mobile-app'' \<and> asc ''Makefile'' \<noteq> asc ''backend''
        \<and> asc ''Makefile'' \<noteq> asc ''docs''"
    by (simp add: asc_def)
  with t have unknown: "display_name (asc ''Makefile'') = generic_area"
    by blast
  have "display_name (asc ''docs'') = [25991, 26723]"
    by (simp add: display_name_def area_mapping_def asc_def)
  with seg unknown show ?thesis
    by (simp add: area_witness_eval)
qed

end
